theory Spec2Isabelle
  imports Main "HOL-Library.Extended_Nat"
begin

section \<open>Frame taxonomy\<close>

text \<open>
  The frames that \<^verbatim>\<open>processors.py\<close> receives and pushes. \<^verbatim>\<open>TextFrame\<close> has three
  subclasses declared in the file itself (\<^verbatim>\<open>StoryPageFrame\<close>, \<^verbatim>\<open>StoryImageFrame\<close>,
  \<^verbatim>\<open>StoryPromptFrame\<close>); the cue messages \<^verbatim>\<open>CUE_ASSISTANT_TURN\<close> and \<^verbatim>\<open>CUE_USER_TURN\<close>
  and the table \<^verbatim>\<open>sounds\<close> are opaque values imported from elsewhere, so they are
  plain constructors here. \<^verbatim>\<open>OtherFrame\<close> stands for every frame class the file does
  not mention.

  A Python \<^verbatim>\<open>str\<close> is modelled as a \<^typ>\<open>string\<close>, one \<^typ>\<open>char\<close> per code point, so
  the model covers the code points below 256.
\<close>

datatype cue = CUE_ASSISTANT_TURN | CUE_USER_TURN

datatype sound_key = talking | listening | ding

datatype frame =
    UserStoppedSpeakingFrame
  | LLMFullResponseEndFrame
  | TextFrame string
  | StoryPageFrame string
  | StoryImageFrame string
  | StoryPromptFrame string
  | DailyTransportMessageFrame cue
  | sounds sound_key
  | OtherFrame nat

text \<open>\<^verbatim>\<open>isinstance(frame, TextFrame)\<close> together with \<^verbatim>\<open>frame.text\<close>: the payload of a
  text frame or of one of its subclasses, \<open>None\<close> for every other frame.\<close>

fun text_of :: "frame \<Rightarrow> string option" where
  "text_of (TextFrame t) = Some t"
| "text_of (StoryPageFrame t) = Some t"
| "text_of (StoryImageFrame t) = Some t"
| "text_of (StoryPromptFrame t) = Some t"
| "text_of _ = None"

section \<open>The two patterns\<close>

text \<open>
  \<^verbatim>\<open>re.search(r"<(.*?)>", text)\<close>. After a \<^verbatim>\<open><\<close> the lazy \<^verbatim>\<open>.*?\<close> runs to the nearest
  \<^verbatim>\<open>>\<close>; \<^verbatim>\<open>.\<close> does not match a newline, so a newline before that \<^verbatim>\<open>>\<close> makes the
  attempt at this \<^verbatim>\<open><\<close> fail and the search goes on to the right.
  \<open>tag_close cs\<close> is the length of group 1 when \<open>cs\<close> is the text after the \<^verbatim>\<open><\<close>;
  \<open>image_search\<close> gives \<^verbatim>\<open>(match.start(), match.end())\<close>.
\<close>

fun tag_close :: "string \<Rightarrow> nat option" where
  "tag_close [] = None"
| "tag_close (c # cs) =
     (if c = CHR ''>'' then Some 0
      else if c = CHR 0x0A then None
      else map_option Suc (tag_close cs))"

fun image_search :: "string \<Rightarrow> (nat \<times> nat) option" where
  "image_search [] = None"
| "image_search (c # cs) =
     (case (if c = CHR ''<'' then tag_close cs else None) of
        Some n \<Rightarrow> Some (0, n + 2)
      | None \<Rightarrow> map_option (\<lambda>(i, j). (Suc i, Suc j)) (image_search cs))"

text \<open>
  The break pattern \<^verbatim>\<open>\[[bB]reak\]\<close> is a sequence of seven character classes, each
  consuming one character. \<open>match_here\<close> matches such a sequence at the head of a text,
  \<open>search\<close> is \<^verbatim>\<open>re.search(...).start()\<close>, the leftmost position where it matches.
\<close>

type_synonym pattern = "char list list"

definition break_pattern :: pattern where
  "break_pattern = [''['', ''bB'', ''r'', ''e'', ''a'', ''k'', '']'']"

fun match_here :: "pattern \<Rightarrow> string \<Rightarrow> bool" where
  "match_here [] cs = True"
| "match_here (alts # ps) [] = False"
| "match_here (alts # ps) (c # cs) = (c \<in> set alts \<and> match_here ps cs)"

fun search :: "pattern \<Rightarrow> string \<Rightarrow> nat option" where
  "search ps [] = (if match_here ps [] then Some 0 else None)"
| "search ps (c # cs) =
     (if match_here ps (c # cs) then Some 0 else map_option Suc (search ps cs))"

text \<open>
  \<^verbatim>\<open>flags=re.IGNORECASE\<close>: a letter of the pattern also matches its other case. (Below
  code point 256 the letters of the break pattern have no further case variants.)
\<close>

definition swapcase :: "char \<Rightarrow> char" where
  "swapcase c =
     (let n = (of_char c :: nat)
      in if 65 \<le> n \<and> n \<le> 90 then char_of (n + 32)
         else if 97 \<le> n \<and> n \<le> 122 then char_of (n - 32)
         else c)"

definition ignorecase :: "pattern \<Rightarrow> pattern" where
  "ignorecase ps = map (\<lambda>alts. alts @ map swapcase alts) ps"

text \<open>\<^verbatim>\<open>re.split(pattern, text, maxsplit=1)\<close>: the text before and after the leftmost
  match, or the text alone when there is no match.\<close>

definition re_split1 :: "pattern \<Rightarrow> string \<Rightarrow> string list" where
  "re_split1 ps t =
     (case search ps t of
        None \<Rightarrow> [t]
      | Some q \<Rightarrow> [take q t, drop (q + length ps) t])"

text \<open>\<^verbatim>\<open>str.strip()\<close> removes leading and trailing whitespace, the characters for which
  \<^verbatim>\<open>str.isspace\<close> holds; \<^verbatim>\<open>str.replace("\n", " ")\<close> turns each newline into one space.\<close>

definition isspace :: "char \<Rightarrow> bool" where
  "isspace c = ((of_char c :: nat) \<in> set [9, 10, 11, 12, 13, 28, 29, 30, 31, 32, 133, 160])"

definition strip :: "string \<Rightarrow> string" where
  "strip t = rev (dropWhile isspace (rev (dropWhile isspace t)))"

definition replace_newline :: "string \<Rightarrow> string" where
  "replace_newline t = map (\<lambda>c. if c = CHR 0x0A then CHR '' '' else c) t"

section \<open>StoryProcessor\<close>

record story_processor =
  sp_messages :: "(string \<times> string) list"
  sp_text :: string
  sp_story :: "string list"

text \<open>One iteration of the \<^verbatim>\<open>while True\<close> loop of \<^verbatim>\<open>process_text_content\<close>: \<open>None\<close> is
  the \<^verbatim>\<open>break\<close>, otherwise the frames pushed by the iteration and the new state.
  \<^verbatim>\<open>float("inf")\<close> is \<open>\<infinity>\<close>.\<close>

definition process_text_iteration ::
  "story_processor \<Rightarrow> (frame list \<times> story_processor) option" where
  "process_text_iteration s =
     (let image_match = image_search (sp_text s);
          break_match = search break_pattern (sp_text s)
      in if image_match = None \<and> break_match = None then None
         else
           let image_pos = (case image_match of Some m \<Rightarrow> enat (fst m) | None \<Rightarrow> \<infinity>);
               break_pos = (case break_match of Some b \<Rightarrow> enat b | None \<Rightarrow> \<infinity>)
           in if image_pos < break_pos then
                (case image_match of
                   Some (m_start, m_end) \<Rightarrow>
                     let image_prompt = take (m_end - 1 - (m_start + 1)) (drop (m_start + 1) (sp_text s))
                     in Some ([StoryImageFrame image_prompt],
                              s\<lparr>sp_text := take m_start (sp_text s) @ drop m_end (sp_text s)\<rparr>)
                 | None \<Rightarrow> None)
              else
                let parts = re_split1 (ignorecase break_pattern) (sp_text s);
                    before_break = strip (replace_newline (parts ! 0));
                    rest = (if length parts > 1 then strip (parts ! 1) else [])
                in if length before_break > 2 then
                     Some ([StoryPageFrame before_break,
                            DailyTransportMessageFrame CUE_ASSISTANT_TURN],
                           s\<lparr>sp_story := sp_story s @ [before_break], sp_text := rest\<rparr>)
                   else Some ([], s\<lparr>sp_text := rest\<rparr>))"

text \<open>Every iteration that does not leave the loop shortens the buffer; this is what
  makes the \<^verbatim>\<open>while True\<close> loop a total function.\<close>

lemma tag_close_bound: "tag_close cs = Some n \<Longrightarrow> n < length cs"
  by (induction cs arbitrary: n) (auto split: if_splits)

lemma image_search_bounds:
  "image_search t = Some (i, j) \<Longrightarrow> i + 2 \<le> j \<and> j \<le> length t"
proof (induction t arbitrary: i j)
  case Nil
  then show ?case by simp
next
  case (Cons c cs)
  then show ?case
    by (auto split: if_splits option.splits dest: tag_close_bound)
qed

lemma match_here_length: "match_here ps cs \<Longrightarrow> length ps \<le> length cs"
  by (induction ps cs rule: match_here.induct) auto

lemma search_Some:
  "search ps t = Some q \<Longrightarrow>
     q \<le> length t \<and> match_here ps (drop q t) \<and> (\<forall>k<q. \<not> match_here ps (drop k t))"
proof (induction t arbitrary: q)
  case Nil
  then show ?case by (auto split: if_splits)
next
  case (Cons c cs)
  show ?case
  proof (cases "match_here ps (c # cs)")
    case True
    with Cons.prems show ?thesis by simp
  next
    case False
    with Cons.prems obtain q' where q': "search ps cs = Some q'" "q = Suc q'" by auto
    from Cons.IH[OF q'(1)] have ih: "q' \<le> length cs" "match_here ps (drop q' cs)"
      "\<forall>k<q'. \<not> match_here ps (drop k cs)" by auto
    have "\<forall>k<q. \<not> match_here ps (drop k (c # cs))"
    proof (intro allI impI)
      fix k assume "k < q"
      show "\<not> match_here ps (drop k (c # cs))"
      proof (cases k)
        case 0
        with False show ?thesis by simp
      next
        case (Suc k')
        with \<open>k < q\<close> q'(2) ih(3) show ?thesis by simp
      qed
    qed
    with ih q'(2) show ?thesis by simp
  qed
qed

lemma search_None:
  "search ps t = None \<Longrightarrow> k \<le> length t \<Longrightarrow> \<not> match_here ps (drop k t)"
proof (induction t arbitrary: k)
  case Nil
  then show ?case by (auto split: if_splits)
next
  case (Cons c cs)
  then show ?case by (cases k) (auto split: if_splits)
qed

lemma search_exists:
  "match_here ps (drop k t) \<Longrightarrow> k \<le> length t \<Longrightarrow> \<exists>q\<le>k. search ps t = Some q"
  using search_None[of ps t k] search_Some[of ps t]
  by (cases "search ps t") (auto simp: not_less[symmetric])

lemma match_here_ignorecase: "match_here ps cs \<Longrightarrow> match_here (ignorecase ps) cs"
  by (induction ps cs rule: match_here.induct) (auto simp: ignorecase_def)

lemma length_strip: "length (strip t) \<le> length t"
  unfolding strip_def
  by (metis length_dropWhile_le length_rev order_trans)

text \<open>If the case-sensitive search finds a marker, the case-insensitive split finds one
  at or before it.\<close>
lemma split_found:
  assumes "search break_pattern t = Some b"
  shows "\<exists>q\<le>b. search (ignorecase break_pattern) t = Some q \<and> q + 7 \<le> length t
           \<and> re_split1 (ignorecase break_pattern) t = [take q t, drop (q + 7) t]"
proof -
  from search_Some[OF assms] have b: "b \<le> length t" "match_here break_pattern (drop b t)" by auto
  from search_exists[OF match_here_ignorecase[OF b(2)] b(1)]
  obtain q where q: "q \<le> b" "search (ignorecase break_pattern) t = Some q" by blast
  from search_Some[OF q(2)] have "match_here (ignorecase break_pattern) (drop q t)" by simp
  from match_here_length[OF this] have "q + 7 \<le> length t"
    by (simp add: ignorecase_def break_pattern_def)
  moreover have "length (ignorecase break_pattern) = 7"
    by (simp add: ignorecase_def break_pattern_def)
  ultimately show ?thesis using q by (auto simp: re_split1_def)
qed

lemma iteration_decreases:
  assumes "process_text_iteration s = Some (out, s')"
  shows "length (sp_text s') < length (sp_text s)"
proof (cases "image_search (sp_text s)")
  case None
  with assms obtain b where b: "search break_pattern (sp_text s) = Some b"
    by (cases "search break_pattern (sp_text s)") (auto simp: process_text_iteration_def)
  from split_found[OF b] obtain q where
    q: "q + 7 \<le> length (sp_text s)"
       "re_split1 (ignorecase break_pattern) (sp_text s) = [take q (sp_text s), drop (q + 7) (sp_text s)]"
    by blast
  have "length (strip (drop (q + 7) (sp_text s))) < length (sp_text s)"
    using length_strip[of "drop (q + 7) (sp_text s)"] q(1) by simp
  with assms None b q(2) show ?thesis
    by (auto simp: process_text_iteration_def Let_def split: if_splits)
next
  case (Some m)
  obtain i j where m: "m = (i, j)" by (cases m)
  from image_search_bounds[of "sp_text s" i j] Some m
  have ij: "i + 2 \<le> j" "j \<le> length (sp_text s)" by auto
  show ?thesis
  proof (cases "search break_pattern (sp_text s)")
    case None
    with assms Some m ij show ?thesis
      by (auto simp: process_text_iteration_def Let_def)
  next
    case (Some b)
    from split_found[OF Some] obtain q where
      q: "q + 7 \<le> length (sp_text s)"
         "re_split1 (ignorecase break_pattern) (sp_text s) = [take q (sp_text s), drop (q + 7) (sp_text s)]"
      by blast
    have "length (strip (drop (q + 7) (sp_text s))) < length (sp_text s)"
      using length_strip[of "drop (q + 7) (sp_text s)"] q(1) by simp
    with assms \<open>image_search (sp_text s) = Some m\<close> m ij Some q(2) show ?thesis
      by (auto simp: process_text_iteration_def Let_def split: if_splits)
  qed
qed

text \<open>The loop of \<^verbatim>\<open>process_text_content\<close>: the frames pushed, in order, and the state
  when the loop is left.\<close>

function process_text_content :: "story_processor \<Rightarrow> frame list \<times> story_processor" where
  "process_text_content s =
     (case process_text_iteration s of
        None \<Rightarrow> ([], s)
      | Some (out, s') \<Rightarrow>
          (case process_text_content s' of (out', s'') \<Rightarrow> (out @ out', s'')))"
  by pat_completeness auto
termination
  by (relation "measure (\<lambda>s. length (sp_text s))") (auto dest: iteration_decreases)

declare process_text_content.simps [simp del]

text \<open>\<^verbatim>\<open>StoryProcessor.process_frame\<close>, the \<^verbatim>\<open>isinstance\<close> tests in the order of the source.
  The result is the list of frames handed to \<^verbatim>\<open>push_frame\<close>, in order, and the new state.
  The call of the base class's \<^verbatim>\<open>process_frame\<close> that comes first pushes nothing and
  does not touch the three fields.\<close>

fun process_frame :: "story_processor \<Rightarrow> frame \<Rightarrow> frame list \<times> story_processor" where
  "process_frame s frame =
     (if frame = UserStoppedSpeakingFrame then
        ([DailyTransportMessageFrame CUE_ASSISTANT_TURN, sounds talking], s)
      else case text_of frame of
        Some t \<Rightarrow> process_text_content (s\<lparr>sp_text := sp_text s @ t\<rparr>)
      | None \<Rightarrow>
          if frame = LLMFullResponseEndFrame then
            ([StoryPromptFrame (sp_text s), frame,
              DailyTransportMessageFrame CUE_USER_TURN, sounds listening],
             s\<lparr>sp_text := []\<rparr>)
          else ([frame], s))"

text \<open>A pipeline run: frames delivered one at a time, in arrival order.\<close>

fun process_frames :: "story_processor \<Rightarrow> frame list \<Rightarrow> frame list \<times> story_processor" where
  "process_frames s [] = ([], s)"
| "process_frames s (f # fs) =
     (case process_frame s f of (out, s') \<Rightarrow>
        (case process_frames s' fs of (out', s'') \<Rightarrow> (out @ out', s'')))"

text \<open>\<^verbatim>\<open>StoryProcessor.__init__\<close>: the buffer starts empty.\<close>

definition new_processor :: "(string \<times> string) list \<Rightarrow> string list \<Rightarrow> story_processor" where
  "new_processor msgs st = \<lparr>sp_messages = msgs, sp_text = [], sp_story = st\<rparr>"

section \<open>Pages of a run\<close>

text \<open>The texts of the page frames among the frames pushed, in order, and what the
  story is meant to hold: a text without newline, longer than 2 characters, with no
  whitespace at either end.\<close>

fun page_texts :: "frame list \<Rightarrow> string list" where
  "page_texts [] = []"
| "page_texts (StoryPageFrame t # fs) = t # page_texts fs"
| "page_texts (f # fs) = page_texts fs"

definition well_formed_page :: "string \<Rightarrow> bool" where
  "well_formed_page e =
     (CHR 0x0A \<notin> set e \<and> 2 < length e \<and> \<not> isspace (hd e) \<and> \<not> isspace (last e)
      \<and> strip e = e)"

section \<open>Cuts between deltas\<close>

text \<open>Notions for comparing a run on deltas with the run on their concatenation. Whether
  an iteration takes the image arm is the comparison \<^verbatim>\<open>image_pos < break_pos\<close> of the loop.
  Two states are the same up to space when they differ at most in whitespace at the two
  ends of the buffer.\<close>

definition image_first :: "string \<Rightarrow> bool" where
  "image_first t =
     ((case image_search t of Some m \<Rightarrow> enat (fst m) | None \<Rightarrow> \<infinity>)
        < (case search break_pattern t of Some b \<Rightarrow> enat b | None \<Rightarrow> \<infinity>))"

definition same_up_to_space :: "story_processor \<Rightarrow> story_processor \<Rightarrow> bool" where
  "same_up_to_space s s' =
     (sp_messages s = sp_messages s' \<and> sp_story s = sp_story s'
      \<and> strip (sp_text s) = strip (sp_text s'))"

definition spacefree :: "pattern \<Rightarrow> bool" where
  "spacefree ps = (\<forall>alts\<in>set ps. \<forall>a\<in>set alts. \<not> isspace a)"

text \<open>A \<^verbatim>\<open><\<close> is open when no \<^verbatim>\<open>>\<close> and no newline follows it yet: text that arrives
  later can still close it. Adding a \<^verbatim>\<open>>\<close> at the end shows the leftmost tag that is
  closed or open.\<close>

definition no_open_tag_before :: "nat \<Rightarrow> string \<Rightarrow> bool" where
  "no_open_tag_before b t =
     (case image_search (t @ ''>'') of None \<Rightarrow> True | Some (i, j) \<Rightarrow> b \<le> i)"

text \<open>A break marker is consumed tidily when no \<^verbatim>\<open><\<close> before it is still open and the
  text behind it is all whitespace or does not end in whitespace (so that trimming it
  drops nothing that later text could follow). A buffer is tidy when every break
  marker the loop consumes in it is consumed tidily; a sequence of deltas is tidy when
  this holds for the buffer of each delta but the last.\<close>

definition remainder_tidy :: "string \<Rightarrow> bool" where
  "remainder_tidy rest = (list_all isspace rest \<or> \<not> isspace (last rest))"

definition tidy_break :: "string \<Rightarrow> bool" where
  "tidy_break t =
     (case search break_pattern t of
        None \<Rightarrow> True
      | Some b \<Rightarrow>
          no_open_tag_before b t
          \<and> (case search (ignorecase break_pattern) t of
                None \<Rightarrow> True
              | Some q \<Rightarrow> remainder_tidy (drop (q + 7) t)))"

function tidy :: "story_processor \<Rightarrow> bool" where
  "tidy s =
     (case process_text_iteration s of
        None \<Rightarrow> True
      | Some (out, s') \<Rightarrow>
          (if image_first (sp_text s) then True else tidy_break (sp_text s)) \<and> tidy s')"
  by pat_completeness auto
termination
  by (relation "measure (\<lambda>s. length (sp_text s))") (auto dest: iteration_decreases)

declare tidy.simps [simp del]

fun tidy_deltas :: "story_processor \<Rightarrow> string list \<Rightarrow> bool" where
  "tidy_deltas s [] = True"
| "tidy_deltas s [d] = True"
| "tidy_deltas s (d # ds) =
     (tidy (s\<lparr>sp_text := sp_text s @ d\<rparr>)
      \<and> tidy_deltas (snd (process_frame s (TextFrame d))) ds)"

section \<open>Unfolding the loop\<close>

lemma process_text_content_None:
  "process_text_iteration s = None \<Longrightarrow> process_text_content s = ([], s)"
  by (subst process_text_content.simps) simp

lemma process_text_content_Some:
  "process_text_iteration s = Some (out, s') \<Longrightarrow>
     process_text_content s = (out @ fst (process_text_content s'), snd (process_text_content s'))"
  by (subst process_text_content.simps) (simp add: case_prod_beta)

lemma loop_exit: "process_text_iteration (snd (process_text_content s)) = None"
proof (induction s rule: process_text_content.induct)
  case (1 s)
  show ?case
  proof (cases "process_text_iteration s")
    case None
    then show ?thesis by (simp add: process_text_content_None)
  next
    case (Some r)
    then obtain out s' where r: "process_text_iteration s = Some (out, s')" by (cases r) simp
    from "1.IH"[OF r refl]
    have "process_text_iteration (snd (process_text_content s')) = None" .
    then show ?thesis by (simp add: process_text_content_Some[OF r])
  qed
qed

lemma loop_buffer_le: "length (sp_text (snd (process_text_content s))) \<le> length (sp_text s)"
proof (induction s rule: process_text_content.induct)
  case (1 s)
  show ?case
  proof (cases "process_text_iteration s")
    case None
    then show ?thesis by (simp add: process_text_content_None)
  next
    case (Some r)
    then obtain out s' where r: "process_text_iteration s = Some (out, s')" by (cases r) simp
    from "1.IH"[OF r refl] iteration_decreases[OF r]
    show ?thesis by (simp add: process_text_content_Some[OF r])
  qed
qed

section \<open>The two arms of an iteration\<close>

lemma match_here_take: "match_here ps cs \<Longrightarrow> match_here ps (take (length ps) cs)"
  by (induction ps cs rule: match_here.induct) auto

lemma match_here_append: "match_here ps cs \<Longrightarrow> match_here ps (cs @ ds)"
  by (induction ps cs rule: match_here.induct) auto

lemma length_icase [simp]: "length (ignorecase break_pattern) = 7"
  by (simp add: ignorecase_def break_pattern_def)

text \<open>The break arm of one iteration, in terms of the split position.\<close>
lemma break_arm:
  assumes brk: "search break_pattern (sp_text s) = Some b"
    and first: "\<forall>m. image_search (sp_text s) = Some m \<longrightarrow> b \<le> fst m"
    and q: "search (ignorecase break_pattern) (sp_text s) = Some q"
  shows "process_text_iteration s =
     (let page = strip (replace_newline (take q (sp_text s)));
          rest = strip (drop (q + 7) (sp_text s))
      in if 2 < length page
         then Some ([StoryPageFrame page, DailyTransportMessageFrame CUE_ASSISTANT_TURN],
                    s\<lparr>sp_story := sp_story s @ [page], sp_text := rest\<rparr>)
         else Some ([], s\<lparr>sp_text := rest\<rparr>))"
proof -
  have parts: "re_split1 (ignorecase break_pattern) (sp_text s)
                 = [take q (sp_text s), drop (q + 7) (sp_text s)]"
    using q by (simp add: re_split1_def)
  show ?thesis
  proof (cases "image_search (sp_text s)")
    case None
    with brk parts show ?thesis
      by (simp add: process_text_iteration_def Let_def)
  next
    case (Some m)
    with first have "b \<le> fst m" by simp
    with Some brk parts show ?thesis
      by (simp add: process_text_iteration_def Let_def not_less)
  qed
qed




section \<open>Trimming\<close>

lemma rev_dropWhile_takeWhile:
  "rev (dropWhile P (rev xs)) @ rev (takeWhile P (rev xs)) = xs"
proof -
  have "rev (takeWhile P (rev xs) @ dropWhile P (rev xs)) = rev (rev xs)"
    by (simp only: takeWhile_dropWhile_id)
  then show ?thesis by (simp only: rev_append rev_rev_ident)
qed

lemma strip_decomp:
  "\<exists>l r. t = l @ strip t @ r \<and> (\<forall>c\<in>set l. isspace c) \<and> (\<forall>c\<in>set r. isspace c)"
proof -
  let ?l = "takeWhile isspace t" and ?u = "dropWhile isspace t"
  let ?r = "rev (takeWhile isspace (rev ?u))"
  have u: "strip t @ ?r = ?u"
    unfolding strip_def by (rule rev_dropWhile_takeWhile)
  have "?l @ ?u = t" by (rule takeWhile_dropWhile_id)
  with u have "t = ?l @ strip t @ ?r" by simp
  moreover have "\<forall>c\<in>set ?l. isspace c" by (auto dest: set_takeWhileD)
  moreover have "\<forall>c\<in>set ?r. isspace c" by (auto dest: set_takeWhileD)
  ultimately show ?thesis by blast
qed

lemma strip_ends:
  assumes "strip t \<noteq> []"
  shows "\<not> isspace (hd (strip t)) \<and> \<not> isspace (last (strip t))"
proof -
  let ?u = "dropWhile isspace t"
  let ?v = "dropWhile isspace (rev ?u)"
  have st: "strip t = rev ?v" by (simp add: strip_def)
  with assms have v: "?v \<noteq> []" by simp
  then have hv: "\<not> isspace (hd ?v)" by (rule hd_dropWhile)
  have "last (rev ?v) = hd ?v" using v by (simp add: last_rev)
  with hv st have l: "\<not> isspace (last (strip t))" by simp
  from v have u: "?u \<noteq> []" by (cases "?u") simp_all
  then have hu: "\<not> isspace (hd ?u)" by (rule hd_dropWhile)
  have "takeWhile isspace (rev ?u) @ ?v = rev ?u" by (rule takeWhile_dropWhile_id)
  then have "last (rev ?u) = last ?v" using v by (metis last_appendR)
  moreover have "last (rev ?u) = hd ?u" using u by (simp add: last_rev)
  moreover have "hd (rev ?v) = last ?v" using v by (simp add: hd_rev)
  ultimately have "hd (strip t) = hd ?u" using st by simp
  with hu l show ?thesis by simp
qed

lemma strip_fix:
  assumes "xs \<noteq> []" "\<not> isspace (hd xs)" "\<not> isspace (last xs)"
  shows "strip xs = xs"
proof -
  from assms(1,2) have 1: "dropWhile isspace xs = xs" by (cases xs) auto
  from assms(1,3) have "\<not> isspace (hd (rev xs))" by (simp add: hd_rev)
  with assms(1) have 2: "dropWhile isspace (rev xs) = rev xs" by (cases "rev xs") auto
  show ?thesis unfolding strip_def 1 2 by simp
qed

lemma strip_Nil [simp]: "strip [] = []"
  by (simp add: strip_def)

lemma strip_idem: "strip (strip t) = strip t"
proof (cases "strip t = []")
  case True
  then show ?thesis by simp
next
  case False
  from strip_ends[OF False] strip_fix[OF False] show ?thesis by blast
qed

lemma set_strip: "set (strip t) \<subseteq> set t"
proof -
  from strip_decomp[of t] obtain l r where "t = l @ strip t @ r" by blast
  then have "set t = set l \<union> set (strip t) \<union> set r" by (metis set_append Un_assoc)
  then show ?thesis by blast
qed

lemma newline_replaced: "CHR 0x0A \<notin> set (replace_newline t)"
  by (auto simp: replace_newline_def)

section \<open>What an iteration can do\<close>

lemma tag_close_decomp:
  "tag_close cs = Some n \<Longrightarrow> cs = take n cs @ CHR ''>'' # drop (Suc n) cs"
proof (induction cs arbitrary: n)
  case Nil
  then show ?case by simp
next
  case (Cons c cs)
  then show ?case by (cases "c = CHR ''>''") (auto split: if_splits)
qed

lemma image_search_decomp:
  "image_search t = Some (i, j) \<Longrightarrow>
     t = take i t @ CHR ''<'' # take (j - 1 - (i + 1)) (drop (i + 1) t) @ CHR ''>'' # drop j t"
proof (induction t arbitrary: i j)
  case Nil
  then show ?case by simp
next
  case (Cons c cs)
  show ?case
  proof (cases "(if c = CHR ''<'' then tag_close cs else None)")
    case None
    with Cons.prems obtain i' j' where
      ij: "image_search cs = Some (i', j')" "i = Suc i'" "j = Suc j'" by auto
    from image_search_bounds[OF ij(1)] have "i' + 2 \<le> j'" by simp
    with Cons.IH[OF ij(1)] ij(2,3) show ?thesis by simp
  next
    case (Some n)
    then have c: "c = CHR ''<''" and n: "tag_close cs = Some n" by (auto split: if_splits)
    from Cons.prems Some have ij: "i = 0" "j = n + 2" by auto
    from tag_close_decomp[OF n] c ij show ?thesis by simp
  qed
qed

lemma tag_close_clean:
  "tag_close cs = Some n \<Longrightarrow>
     CHR ''>'' \<notin> set (take n cs) \<and> CHR 0x0A \<notin> set (take n cs)"
proof (induction cs arbitrary: n)
  case Nil
  then show ?case by simp
next
  case (Cons c cs)
  then show ?case by (cases "c = CHR ''>''") (auto split: if_splits)
qed

lemma image_search_clean:
  "image_search t = Some (i, j) \<Longrightarrow>
     CHR ''>'' \<notin> set (take (j - 1 - (i + 1)) (drop (i + 1) t))
   \<and> CHR 0x0A \<notin> set (take (j - 1 - (i + 1)) (drop (i + 1) t))"
proof (induction t arbitrary: i j)
  case Nil
  then show ?case by simp
next
  case (Cons c cs)
  show ?case
  proof (cases "(if c = CHR ''<'' then tag_close cs else None)")
    case None
    with Cons.prems obtain i' j' where
      ij: "image_search cs = Some (i', j')" "i = Suc i'" "j = Suc j'" by auto
    from Cons.IH[OF ij(1)] ij(2,3) show ?thesis by simp
  next
    case (Some n)
    then have n: "tag_close cs = Some n" by (auto split: if_splits)
    from Cons.prems Some have ij: "i = 0" "j = n + 2" by auto
    from tag_close_clean[OF n] ij show ?thesis by simp
  qed
qed

lemma image_search_first:
  "image_search t = Some (i, j) \<Longrightarrow> k < i \<Longrightarrow> t ! k = CHR ''<'' \<Longrightarrow>
     tag_close (drop (Suc k) t) = None"
proof (induction t arbitrary: i j k)
  case Nil
  then show ?case by simp
next
  case (Cons c cs)
  show ?case
  proof (cases "(if c = CHR ''<'' then tag_close cs else None)")
    case (Some n)
    with Cons.prems show ?thesis by simp
  next
    case None
    with Cons.prems(1) obtain i' j' where
      ij: "image_search cs = Some (i', j')" "i = Suc i'" "j = Suc j'" by auto
    show ?thesis
    proof (cases k)
      case 0
      with Cons.prems(3) None show ?thesis by simp
    next
      case (Suc k')
      with Cons.prems(2,3) ij(2) Cons.IH[OF ij(1), of k'] show ?thesis by simp
    qed
  qed
qed

lemma iteration_cases:
  assumes "process_text_iteration s = Some (out, s')"
  shows "(\<exists>i j. image_search (sp_text s) = Some (i, j)
            \<and> out = [StoryImageFrame (take (j - 1 - (i + 1)) (drop (i + 1) (sp_text s)))]
            \<and> s' = s\<lparr>sp_text := take i (sp_text s) @ drop j (sp_text s)\<rparr>)
       \<or> (\<exists>q. search (ignorecase break_pattern) (sp_text s) = Some q
            \<and> q + 7 \<le> length (sp_text s)
            \<and> (out, s') =
                (let page = strip (replace_newline (take q (sp_text s)));
                     rest = strip (drop (q + 7) (sp_text s))
                 in if 2 < length page
                    then ([StoryPageFrame page, DailyTransportMessageFrame CUE_ASSISTANT_TURN],
                          s\<lparr>sp_story := sp_story s @ [page], sp_text := rest\<rparr>)
                    else ([], s\<lparr>sp_text := rest\<rparr>)))"
proof -
  let ?t = "sp_text s"
  let ?image_first = "(case image_search ?t of Some m \<Rightarrow> enat (fst m) | None \<Rightarrow> \<infinity>)
                        < (case search break_pattern ?t of Some b \<Rightarrow> enat b | None \<Rightarrow> \<infinity>)"
  show ?thesis
  proof (cases ?image_first)
    case True
    then obtain i j where im: "image_search ?t = Some (i, j)"
      by (cases "image_search ?t") auto
    with assms True have "out = [StoryImageFrame (take (j - 1 - (i + 1)) (drop (i + 1) ?t))]"
      "s' = s\<lparr>sp_text := take i ?t @ drop j ?t\<rparr>"
      by (auto simp: process_text_iteration_def Let_def split: if_splits)
    with im show ?thesis by blast
  next
    case False
    have "\<not> (image_search ?t = None \<and> search break_pattern ?t = None)"
    proof
      assume "image_search ?t = None \<and> search break_pattern ?t = None"
      then have "process_text_iteration s = None" by (simp add: process_text_iteration_def)
      with assms show False by simp
    qed
    with False obtain b where brk: "search break_pattern ?t = Some b"
      by (cases "search break_pattern ?t"; cases "image_search ?t") auto
    from False brk have first: "\<forall>m. image_search ?t = Some m \<longrightarrow> b \<le> fst m"
      by (auto simp: not_less)
    from split_found[OF brk] obtain q where
      q: "search (ignorecase break_pattern) ?t = Some q" "q + 7 \<le> length ?t" by blast
    from break_arm[OF brk first q(1)] assms
    have "(out, s') =
                (let page = strip (replace_newline (take q ?t));
                     rest = strip (drop (q + 7) ?t)
                 in if 2 < length page
                    then ([StoryPageFrame page, DailyTransportMessageFrame CUE_ASSISTANT_TURN],
                          s\<lparr>sp_story := sp_story s @ [page], sp_text := rest\<rparr>)
                    else ([], s\<lparr>sp_text := rest\<rparr>))"
      by (simp add: Let_def split: if_splits)
    with q show ?thesis by blast
  qed
qed

lemma page_texts_append: "page_texts (xs @ ys) = page_texts xs @ page_texts ys"
  by (induction xs rule: page_texts.induct) auto

lemma page_well_formed:
  assumes "2 < length (strip (replace_newline x))"
  shows "well_formed_page (strip (replace_newline x))"
proof -
  let ?e = "strip (replace_newline x)"
  from assms have ne: "?e \<noteq> []" by auto
  have "CHR 0x0A \<notin> set ?e"
    using set_strip[of "replace_newline x"] newline_replaced[of x] by blast
  with assms strip_ends[OF ne] strip_idem[of "replace_newline x"]
  show ?thesis by (simp add: well_formed_page_def)
qed

lemma iteration_story:
  assumes "process_text_iteration s = Some (out, s')"
  shows "sp_story s' = sp_story s @ page_texts out \<and> list_all well_formed_page (page_texts out)"
  using iteration_cases[OF assms]
  by (auto simp: Let_def page_well_formed split: if_splits)

lemma loop_story:
  "sp_story (snd (process_text_content s)) = sp_story s @ page_texts (fst (process_text_content s))
   \<and> list_all well_formed_page (page_texts (fst (process_text_content s)))"
proof (induction s rule: process_text_content.induct)
  case (1 s)
  show ?case
  proof (cases "process_text_iteration s")
    case None
    then show ?thesis by (simp add: process_text_content_None)
  next
    case (Some r)
    then obtain out s' where r: "process_text_iteration s = Some (out, s')" by (cases r) simp
    from "1.IH"[OF r refl] iteration_story[OF r]
    show ?thesis by (simp add: process_text_content_Some[OF r] page_texts_append)
  qed
qed

lemma frame_story:
  "sp_story (snd (process_frame s f)) = sp_story s @ page_texts (fst (process_frame s f))
   \<and> list_all well_formed_page (page_texts (fst (process_frame s f)))"
proof (cases "text_of f")
  case None
  then show ?thesis by (cases f) simp_all
next
  case (Some t)
  with loop_story[of "s\<lparr>sp_text := sp_text s @ t\<rparr>"] show ?thesis
    by (cases f) simp_all
qed

lemma iteration_out_shape:
  assumes "process_text_iteration s = Some (out, s')"
  shows "(\<exists>p. out = [StoryImageFrame p]
            \<and> length (sp_text s') + length p + 2 \<le> length (sp_text s))
       \<or> (\<exists>e. out = [StoryPageFrame e, DailyTransportMessageFrame CUE_ASSISTANT_TURN])
       \<or> out = []"
  using iteration_cases[OF assms]
proof (elim disjE exE conjE)
  fix i j
  assume im: "image_search (sp_text s) = Some (i, j)"
    and out: "out = [StoryImageFrame (take (j - 1 - (i + 1)) (drop (i + 1) (sp_text s)))]"
    and s': "s' = s\<lparr>sp_text := take i (sp_text s) @ drop j (sp_text s)\<rparr>"
  from image_search_bounds[OF im] have "i + 2 \<le> j" "j \<le> length (sp_text s)" by auto
  with out s' show ?thesis by auto
next
  fix q
  assume "(out, s') =
            (let page = strip (replace_newline (take q (sp_text s)));
                 rest = strip (drop (q + 7) (sp_text s))
             in if 2 < length page
                then ([StoryPageFrame page, DailyTransportMessageFrame CUE_ASSISTANT_TURN],
                      s\<lparr>sp_story := sp_story s @ [page], sp_text := rest\<rparr>)
                else ([], s\<lparr>sp_text := rest\<rparr>))"
  then show ?thesis by (auto simp: Let_def split: if_splits)
qed

lemma loop_no_prompt: "StoryPromptFrame t \<notin> set (fst (process_text_content s))"
proof (induction s rule: process_text_content.induct)
  case (1 s)
  show ?case
  proof (cases "process_text_iteration s")
    case None
    then show ?thesis by (simp add: process_text_content_None)
  next
    case (Some r)
    then obtain out s' where r: "process_text_iteration s = Some (out, s')" by (cases r) simp
    from "1.IH"[OF r refl] iteration_out_shape[OF r]
    show ?thesis by (auto simp: process_text_content_Some[OF r])
  qed
qed

lemma loop_no_single_page: "fst (process_text_content s) \<noteq> [StoryPageFrame t]"
proof (induction s rule: process_text_content.induct)
  case (1 s)
  show ?case
  proof (cases "process_text_iteration s")
    case None
    then show ?thesis by (simp add: process_text_content_None)
  next
    case (Some r)
    then obtain out s' where r: "process_text_iteration s = Some (out, s')" by (cases r) simp
    from "1.IH"[OF r refl] iteration_out_shape[OF r]
    show ?thesis by (auto simp: process_text_content_Some[OF r])
  qed
qed

lemma loop_image_shrinks:
  "StoryImageFrame p \<in> set (fst (process_text_content s)) \<Longrightarrow>
     length (sp_text (snd (process_text_content s))) + length p + 2 \<le> length (sp_text s)"
proof (induction s rule: process_text_content.induct)
  case (1 s)
  show ?case
  proof (cases "process_text_iteration s")
    case None
    with "1.prems" show ?thesis by (simp add: process_text_content_None)
  next
    case (Some r)
    then obtain out s' where r: "process_text_iteration s = Some (out, s')" by (cases r) simp
    from "1.prems" have mem: "StoryImageFrame p \<in> set out
        \<or> StoryImageFrame p \<in> set (fst (process_text_content s'))"
      by (auto simp: process_text_content_Some[OF r])
    have fin: "snd (process_text_content s) = snd (process_text_content s')"
      by (simp add: process_text_content_Some[OF r])
    from mem show ?thesis
    proof
      assume "StoryImageFrame p \<in> set out"
      with iteration_out_shape[OF r]
      have "length (sp_text s') + length p + 2 \<le> length (sp_text s)" by auto
      with loop_buffer_le[of s'] fin show ?thesis by simp
    next
      assume "StoryImageFrame p \<in> set (fst (process_text_content s'))"
      from "1.IH"[OF r refl this] iteration_decreases[OF r] fin show ?thesis by simp
    qed
  qed
qed

section \<open>Whitespace at the ends, text arriving later\<close>

lemma isspace_chars [simp]:
  "\<not> isspace (CHR ''<'')" "\<not> isspace (CHR ''>'')" "isspace (CHR 0x0A)" "isspace (CHR '' '')"
  by (simp_all add: isspace_def)

lemma icase_break_pattern:
  "ignorecase break_pattern = [''[['', ''bBBb'', ''rR'', ''eE'', ''aA'', ''kK'', '']]'']"
  by code_simp

lemma break_classes_no_space:
  "alts \<in> set break_pattern \<or> alts \<in> set (ignorecase break_pattern) \<Longrightarrow> a \<in> set alts \<Longrightarrow> \<not> isspace a"
  unfolding icase_break_pattern unfolding break_pattern_def by (auto simp: isspace_def)

lemma break_classes_no_lt:
  "alts \<in> set break_pattern \<or> alts \<in> set (ignorecase break_pattern) \<Longrightarrow> CHR ''<'' \<notin> set alts"
  unfolding icase_break_pattern unfolding break_pattern_def by auto

lemma spacefree_break [simp]: "spacefree break_pattern" "spacefree (ignorecase break_pattern)"
  using break_classes_no_space by (auto simp: spacefree_def)

lemma break_nonempty [simp]: "break_pattern \<noteq> []" "ignorecase break_pattern \<noteq> []"
  unfolding icase_break_pattern unfolding break_pattern_def by simp_all

text \<open>Trimming ignores whitespace added on either side.\<close>

lemma strip_pad_left: "list_all isspace l \<Longrightarrow> strip (l @ c) = strip c"
  by (simp add: strip_def dropWhile_append2 list_all_iff)

lemma strip_pad_right: "list_all isspace r \<Longrightarrow> strip (c @ r) = strip c"
proof (cases "list_all isspace c")
  case True
  assume "list_all isspace r"
  with True have "list_all isspace (c @ r)" by simp
  then have "dropWhile isspace (c @ r) = []" by (simp only: dropWhile_eq_Nil_conv list_all_iff) 
  moreover from True have "dropWhile isspace c = []" by (simp only: dropWhile_eq_Nil_conv list_all_iff) 
  ultimately show ?thesis by (simp only: strip_def)
next
  case False
  assume r: "list_all isspace r"
  from False obtain x where x: "x \<in> set c" "\<not> isspace x" by (auto simp: list_all_iff)
  then have 1: "dropWhile isspace (c @ r) = dropWhile isspace c @ r"
    by (rule dropWhile_append1)
  have "dropWhile isspace (rev r @ rev (dropWhile isspace c)) = dropWhile isspace (rev (dropWhile isspace c))"
    using r by (intro dropWhile_append2) (simp add: list_all_iff)
  with 1 show ?thesis by (simp add: strip_def)
qed

lemma strip_pad: "list_all isspace l \<Longrightarrow> list_all isspace r \<Longrightarrow> strip (l @ c @ r) = strip c"
  by (simp add: strip_pad_left strip_pad_right)

lemma replace_newline_space: "list_all isspace l \<Longrightarrow> list_all isspace (replace_newline l)"
  by (induction l) (auto simp: replace_newline_def)

lemma replace_newline_append: "replace_newline (a @ b) = replace_newline a @ replace_newline b"
  by (simp add: replace_newline_def)

text \<open>Neither search sees whitespace added on either side.\<close>

lemma tag_close_space: "list_all isspace r \<Longrightarrow> tag_close r = None"
  by (induction r) auto

lemma tag_close_pad_right: "list_all isspace r \<Longrightarrow> tag_close (cs @ r) = tag_close cs"
  by (induction cs) (auto simp: tag_close_space)

lemma image_search_space: "list_all isspace r \<Longrightarrow> image_search r = None"
  by (induction r) auto

lemma image_search_pad_right: "list_all isspace r \<Longrightarrow> image_search (c @ r) = image_search c"
  by (induction c) (auto simp: image_search_space tag_close_pad_right split: option.splits)

lemma image_search_pad_left:
  "list_all isspace l \<Longrightarrow>
     image_search (l @ c) = map_option (\<lambda>(i, j). (i + length l, j + length l)) (image_search c)"
proof (induction l)
  case Nil
  then show ?case by (simp add: option.map_ident case_prod_beta)
next
  case (Cons a l)
  then have "a \<noteq> CHR ''<''" by auto
  with Cons show ?case by (simp add: option.map_comp comp_def case_prod_beta)
qed

lemma match_here_space_head:
  "spacefree ps \<Longrightarrow> ps \<noteq> [] \<Longrightarrow> isspace a \<Longrightarrow> \<not> match_here ps (a # cs)"
  by (cases ps) (auto simp: spacefree_def)

lemma match_here_pad_right:
  "spacefree ps \<Longrightarrow> list_all isspace r \<Longrightarrow> match_here ps (cs @ r) = match_here ps cs"
proof (induction ps cs rule: match_here.induct)
  case (1 cs)
  then show ?case by simp
next
  case (2 alts ps)
  then show ?case by (cases r) (auto simp: spacefree_def)
next
  case (3 alts ps c cs)
  then show ?case by (simp add: spacefree_def)
qed

lemma search_space: "spacefree ps \<Longrightarrow> ps \<noteq> [] \<Longrightarrow> list_all isspace r \<Longrightarrow> search ps r = None"
proof (induction r)
  case Nil
  then show ?case by (cases ps) auto
next
  case (Cons a r)
  then show ?case by (simp add: match_here_space_head)
qed

lemma search_pad_right:
  "spacefree ps \<Longrightarrow> ps \<noteq> [] \<Longrightarrow> list_all isspace r \<Longrightarrow> search ps (c @ r) = search ps c"
proof (induction c)
  case Nil
  then show ?case by (cases ps) (auto simp: search_space)
next
  case (Cons a c)
  from Cons.prems match_here_pad_right[of ps r "a # c"]
  have "match_here ps (a # c @ r) = match_here ps (a # c)" by simp
  with Cons show ?case by simp
qed

lemma search_pad_left:
  "spacefree ps \<Longrightarrow> ps \<noteq> [] \<Longrightarrow> list_all isspace l \<Longrightarrow>
     search ps (l @ c) = map_option (\<lambda>q. q + length l) (search ps c)"
proof (induction l)
  case Nil
  then show ?case by (simp add: option.map_ident)
next
  case (Cons a l)
  then show ?case by (simp add: match_here_space_head option.map_comp comp_def)
qed

lemma same_up_to_space_refl [simp]: "same_up_to_space s s"
  by (simp add: same_up_to_space_def)

lemma same_up_to_space_sym: "same_up_to_space s s' \<Longrightarrow> same_up_to_space s' s"
  by (simp add: same_up_to_space_def)

lemma same_up_to_space_trans:
  "same_up_to_space s s' \<Longrightarrow> same_up_to_space s' s'' \<Longrightarrow> same_up_to_space s s''"
  by (simp add: same_up_to_space_def)

lemma iteration_none:
  "image_search (sp_text s) = None \<Longrightarrow> search break_pattern (sp_text s) = None \<Longrightarrow>
     process_text_iteration s = None"
  by (simp add: process_text_iteration_def)

lemma iteration_image:
  assumes "image_first (sp_text s)" "image_search (sp_text s) = Some (i, j)"
  shows "process_text_iteration s =
     Some ([StoryImageFrame (take (j - 1 - (i + 1)) (drop (i + 1) (sp_text s)))],
           s\<lparr>sp_text := take i (sp_text s) @ drop j (sp_text s)\<rparr>)"
  using assms by (simp add: process_text_iteration_def image_first_def Let_def)

lemma iteration_break:
  assumes nf: "\<not> image_first (sp_text s)"
    and brk: "search break_pattern (sp_text s) = Some b"
    and q: "search (ignorecase break_pattern) (sp_text s) = Some q"
  shows "process_text_iteration s =
     (let page = strip (replace_newline (take q (sp_text s)));
          rest = strip (drop (q + 7) (sp_text s))
      in if 2 < length page
         then Some ([StoryPageFrame page, DailyTransportMessageFrame CUE_ASSISTANT_TURN],
                    s\<lparr>sp_story := sp_story s @ [page], sp_text := rest\<rparr>)
         else Some ([], s\<lparr>sp_text := rest\<rparr>))"
proof -
  from nf brk have "\<forall>m. image_search (sp_text s) = Some m \<longrightarrow> b \<le> fst m"
    by (auto simp: image_first_def not_less)
  from break_arm[OF brk this q] show ?thesis .
qed

lemma image_first_Some:
  "image_first t \<Longrightarrow> \<exists>i j. image_search t = Some (i, j)"
  by (cases "image_search t") (auto simp: image_first_def)

lemma not_image_first_Some:
  "\<not> image_first t \<Longrightarrow> image_search t \<noteq> None \<or> search break_pattern t \<noteq> None \<Longrightarrow>
     \<exists>b. search break_pattern t = Some b"
  by (cases "image_search t"; cases "search break_pattern t") (auto simp: image_first_def)

lemma image_first_pad:
  assumes "list_all isspace l" "list_all isspace r"
  shows "image_first (l @ c @ r) = image_first c"
proof -
  have 1: "image_search (l @ c @ r) = map_option (\<lambda>(i, j). (i + length l, j + length l)) (image_search c)"
    using assms by (simp add: image_search_pad_left image_search_pad_right)
  have 2: "search break_pattern (l @ c @ r) = map_option (\<lambda>q. q + length l) (search break_pattern c)"
    using assms by (simp add: search_pad_left search_pad_right)
  show ?thesis unfolding image_first_def 1 2
    by (cases "image_search c"; cases "search break_pattern c") auto
qed

text \<open>One iteration does the same on a buffer and on the buffer with whitespace added
  on either side.\<close>

lemma iteration_pad:
  assumes l: "list_all isspace l" and r: "list_all isspace r"
  shows "rel_option (\<lambda>(o1, s1) (o2, s2). o1 = o2 \<and> same_up_to_space s1 s2)
           (process_text_iteration (s\<lparr>sp_text := l @ c @ r\<rparr>))
           (process_text_iteration (s\<lparr>sp_text := c\<rparr>))"
proof -
  let ?P = "s\<lparr>sp_text := l @ c @ r\<rparr>" and ?C = "s\<lparr>sp_text := c\<rparr>"
  have im: "image_search (l @ c @ r) = map_option (\<lambda>(i, j). (i + length l, j + length l)) (image_search c)"
    using l r by (simp add: image_search_pad_left image_search_pad_right)
  have br: "search break_pattern (l @ c @ r) = map_option (\<lambda>q. q + length l) (search break_pattern c)"
    using l r by (simp add: search_pad_left search_pad_right)
  have ic: "search (ignorecase break_pattern) (l @ c @ r)
              = map_option (\<lambda>q. q + length l) (search (ignorecase break_pattern) c)"
    using l r by (simp add: search_pad_left search_pad_right)
  have fi: "image_first (l @ c @ r) = image_first c" by (rule image_first_pad[OF l r])
  show ?thesis
  proof (cases "image_first c")
    case True
    then obtain i j where ij: "image_search c = Some (i, j)" using image_first_Some by blast
    from image_search_bounds[OF ij] have b: "i + 2 \<le> j" "j \<le> length c" by auto
    have C: "process_text_iteration ?C =
       Some ([StoryImageFrame (take (j - 1 - (i + 1)) (drop (i + 1) c))],
             ?C\<lparr>sp_text := take i c @ drop j c\<rparr>)"
      using iteration_image[of ?C i j] True ij by simp
    have P: "process_text_iteration ?P =
       Some ([StoryImageFrame (take (j + length l - 1 - (i + length l + 1)) (drop (i + length l + 1) (l @ c @ r)))],
             ?P\<lparr>sp_text := take (i + length l) (l @ c @ r) @ drop (j + length l) (l @ c @ r)\<rparr>)"
      using iteration_image[of ?P "i + length l" "j + length l"] True ij fi im by simp
    have pay: "take (j + length l - 1 - (i + length l + 1)) (drop (i + length l + 1) (l @ c @ r))
                 = take (j - 1 - (i + 1)) (drop (i + 1) c)"
      using b by simp
    have newt: "take (i + length l) (l @ c @ r) @ drop (j + length l) (l @ c @ r)
                 = l @ (take i c @ drop j c) @ r"
      using b by simp
    show ?thesis unfolding P C pay newt
      using strip_pad[OF l r, of "take i c @ drop j c"] by (simp add: same_up_to_space_def)
  next
    case False
    show ?thesis
    proof (cases "image_search c = None \<and> search break_pattern c = None")
      case True
      then have "process_text_iteration ?C = None" by (simp add: iteration_none)
      moreover from True im br have "process_text_iteration ?P = None" by (simp add: iteration_none)
      ultimately show ?thesis by simp
    next
      case nn: False
      with False obtain b where b: "search break_pattern c = Some b"
        using not_image_first_Some[of c] by blast
      from split_found[OF b] obtain q where
        q: "search (ignorecase break_pattern) c = Some q" "q + 7 \<le> length c" by blast
      have C: "process_text_iteration ?C =
         (let page = strip (replace_newline (take q c));
              rest = strip (drop (q + 7) c)
          in if 2 < length page
             then Some ([StoryPageFrame page, DailyTransportMessageFrame CUE_ASSISTANT_TURN],
                        ?C\<lparr>sp_story := sp_story ?C @ [page], sp_text := rest\<rparr>)
             else Some ([], ?C\<lparr>sp_text := rest\<rparr>))"
        using iteration_break[of ?C b q] False b q(1) by simp
      have P: "process_text_iteration ?P =
         (let page = strip (replace_newline (take (q + length l) (l @ c @ r)));
              rest = strip (drop (q + length l + 7) (l @ c @ r))
          in if 2 < length page
             then Some ([StoryPageFrame page, DailyTransportMessageFrame CUE_ASSISTANT_TURN],
                        ?P\<lparr>sp_story := sp_story ?P @ [page], sp_text := rest\<rparr>)
             else Some ([], ?P\<lparr>sp_text := rest\<rparr>))"
        using iteration_break[of ?P "b + length l" "q + length l"] False b q(1) fi br ic by simp
      have page: "strip (replace_newline (take (q + length l) (l @ c @ r)))
                    = strip (replace_newline (take q c))"
        using q(2) strip_pad_left[OF replace_newline_space[OF l]]
        by (simp add: replace_newline_append)
      have rest: "strip (drop (q + length l + 7) (l @ c @ r)) = strip (drop (q + 7) c)"
        using q(2) strip_pad_right[OF r] by (simp add: add.commute add.left_commute)
      show ?thesis unfolding P C page rest
        by (simp add: Let_def same_up_to_space_def)
    qed
  qed
qed

lemma iteration_strip:
  "rel_option (\<lambda>(o1, s1) (o2, s2). o1 = o2 \<and> same_up_to_space s1 s2)
     (process_text_iteration s)
     (process_text_iteration (s\<lparr>sp_text := strip (sp_text s)\<rparr>))"
proof -
  from strip_decomp[of "sp_text s"] obtain l r where
    d: "sp_text s = l @ strip (sp_text s) @ r" "\<forall>c\<in>set l. isspace c" "\<forall>c\<in>set r. isspace c"
    by blast
  from d(2,3) have lr: "list_all isspace l" "list_all isspace r" by (simp_all add: list_all_iff)
  have "s = s\<lparr>sp_text := l @ strip (sp_text s) @ r\<rparr>" using d(1) by simp
  with iteration_pad[OF lr, where s = s and c = "strip (sp_text s)"] show ?thesis by simp
qed

text \<open>One iteration, and so the whole loop, does the same on two buffers that differ
  only in leading and trailing whitespace.\<close>

lemma iteration_same_up_to_space:
  assumes "same_up_to_space s s'"
  shows "rel_option (\<lambda>(o1, s1) (o2, s2). o1 = o2 \<and> same_up_to_space s1 s2)
           (process_text_iteration s) (process_text_iteration s')"
proof -
  let ?R = "\<lambda>(o1, s1) (o2 :: frame list, s2). o1 = o2 \<and> same_up_to_space s1 s2"
  from assms have eq: "s'\<lparr>sp_text := strip (sp_text s')\<rparr> = s\<lparr>sp_text := strip (sp_text s)\<rparr>"
    by (cases s; cases s') (simp add: same_up_to_space_def)
  have a: "rel_option ?R (process_text_iteration s)
             (process_text_iteration (s\<lparr>sp_text := strip (sp_text s)\<rparr>))"
    by (rule iteration_strip)
  have b: "rel_option ?R (process_text_iteration s')
             (process_text_iteration (s\<lparr>sp_text := strip (sp_text s)\<rparr>))"
    using iteration_strip[of s'] eq by simp
  show ?thesis
  proof (cases "process_text_iteration (s\<lparr>sp_text := strip (sp_text s)\<rparr>)")
    case None
    with a b show ?thesis by (auto simp: option_rel_Some2 option.rel_sel)
  next
    case (Some m)
    with a obtain x where x: "process_text_iteration s = Some x" "?R x m"
      by (auto simp: option_rel_Some2)
    from Some b obtain y where y: "process_text_iteration s' = Some y" "?R y m"
      by (auto simp: option_rel_Some2)
    from x(2) y(2) have "?R x y"
      by (auto intro: same_up_to_space_trans same_up_to_space_sym)
    with x(1) y(1) show ?thesis by simp
  qed
qed

lemma loop_same_up_to_space:
  "same_up_to_space s s' \<Longrightarrow>
     fst (process_text_content s) = fst (process_text_content s')
   \<and> same_up_to_space (snd (process_text_content s)) (snd (process_text_content s'))"
proof (induction s arbitrary: s' rule: process_text_content.induct)
  case (1 s)
  note rel = iteration_same_up_to_space[OF "1.prems"]
  show ?case
  proof (cases "process_text_iteration s")
    case None
    with rel have "process_text_iteration s' = None" by (cases "process_text_iteration s'") auto
    with None "1.prems" show ?thesis by (simp add: process_text_content_None)
  next
    case (Some x)
    then obtain out s1 where s1: "process_text_iteration s = Some (out, s1)" by (cases x) simp
    with rel obtain s1' where s1': "process_text_iteration s' = Some (out, s1')"
      "same_up_to_space s1 s1'"
      by (cases "process_text_iteration s'") auto
    from "1.IH"[OF s1 refl s1'(2)] show ?thesis
      by (simp add: process_text_content_Some[OF s1] process_text_content_Some[OF s1'(1)])
  qed
qed

text \<open>What the searches find in a buffer they still find when more text arrives.\<close>

lemma tag_close_app: "tag_close cs = Some n \<Longrightarrow> tag_close (cs @ z) = Some n"
  by (induction cs arbitrary: n) (auto split: if_splits)

lemma tag_close_dead:
  "tag_close cs = None \<Longrightarrow> CHR ''>'' \<in> set cs \<Longrightarrow> tag_close (cs @ z) = None"
  by (induction cs) (auto split: if_splits)

lemma tag_close_gt: "tag_close cs = Some n \<Longrightarrow> CHR ''>'' \<in> set cs"
  by (induction cs arbitrary: n) (auto split: if_splits)

lemma image_search_gt: "image_search cs = Some m \<Longrightarrow> CHR ''>'' \<in> set cs"
  by (induction cs arbitrary: m) (auto split: if_splits option.splits dest: tag_close_gt)

lemma image_search_app: "image_search t = Some m \<Longrightarrow> image_search (t @ z) = Some m"
proof (induction t arbitrary: m)
  case Nil
  then show ?case by simp
next
  case (Cons c cs)
  show ?case
  proof (cases "(if c = CHR ''<'' then tag_close cs else None)")
    case None
    with Cons.prems obtain m' where m': "image_search cs = Some m'" by auto
    from image_search_gt[OF m'] have gt: "CHR ''>'' \<in> set cs" .
    from None have "(if c = CHR ''<'' then tag_close (cs @ z) else None) = None"
      using tag_close_dead[OF _ gt] by (auto split: if_splits)
    with None Cons.prems Cons.IH[OF m'] m' show ?thesis by simp
  next
    case (Some n)
    then have "c = CHR ''<''" "tag_close cs = Some n" by (auto split: if_splits)
    with Cons.prems tag_close_app[of cs n z] show ?thesis by simp
  qed
qed

lemma match_here_app_inv:
  "match_here ps (xs @ z) \<Longrightarrow> length ps \<le> length xs \<Longrightarrow> match_here ps xs"
  by (induction ps xs rule: match_here.induct) auto

lemma search_length: "search ps t = Some b \<Longrightarrow> b + length ps \<le> length t"
  using search_Some[of ps t b] match_here_length[of ps "drop b t"] by auto

lemma search_app: "search ps t = Some b \<Longrightarrow> search ps (t @ z) = Some b"
proof (induction t arbitrary: b)
  case Nil
  then show ?case by (cases ps; cases z) (auto split: if_splits)
next
  case (Cons c cs)
  show ?case
  proof (cases "match_here ps (c # cs)")
    case True
    with Cons.prems match_here_append[OF True, of z] show ?thesis by simp
  next
    case False
    with Cons.prems obtain b' where b': "search ps cs = Some b'" "b = Suc b'" by auto
    from search_length[OF b'(1)] have "length ps \<le> length (c # cs)" by simp
    with False match_here_app_inv[of ps "c # cs" z] have "\<not> match_here ps (c # cs @ z)" by auto
    with Cons.IH[OF b'(1)] b'(2) show ?thesis by simp
  qed
qed

lemma match_here_nth:
  "match_here ps cs \<Longrightarrow> k < length ps \<Longrightarrow> cs ! k \<in> set (ps ! k)"
proof (induction ps cs arbitrary: k rule: match_here.induct)
  case (3 alts ps c cs)
  then show ?case by (cases k) auto
qed auto

lemma image_search_lt:
  "image_search t = Some (i, j) \<Longrightarrow> i < length t \<and> t ! i = CHR ''<''"
proof (induction t arbitrary: i j)
  case Nil
  then show ?case by simp
next
  case (Cons c cs)
  then show ?case by (auto split: if_splits option.splits)
qed

lemma marker_not_over_lt:
  assumes m: "match_here break_pattern (drop b t)" and i: "i < length t" "t ! i = CHR ''<''"
  shows "i < b \<or> b + 7 \<le> i"
proof (rule ccontr)
  assume "\<not> (i < b \<or> b + 7 \<le> i)"
  then have k: "b \<le> i" "i - b < 7" by auto
  then have "i - b < length break_pattern" by (simp add: break_pattern_def)
  from match_here_nth[OF m this] k(1) i(1) have "t ! i \<in> set (break_pattern ! (i - b))" by simp
  moreover have "break_pattern ! (i - b) \<in> set break_pattern"
    using k(2) by (intro nth_mem) (simp add: break_pattern_def)
  ultimately show False using i(2) break_classes_no_lt by metis
qed

lemma image_first_app:
  assumes "image_first t"
  shows "image_first (t @ z)"
proof -
  from image_first_Some[OF assms] obtain i j where ij: "image_search t = Some (i, j)" by blast
  from image_search_app[OF ij] have ij': "image_search (t @ z) = Some (i, j)" .
  from image_search_lt[OF ij] have lt: "i < length t" "t ! i = CHR ''<''" by auto
  from image_search_bounds[OF ij] have jb: "j \<le> length t" by simp
  show ?thesis
  proof (cases "search break_pattern (t @ z)")
    case None
    with ij' show ?thesis by (simp add: image_first_def)
  next
    case (Some b')
    from search_Some[OF Some] have m: "match_here break_pattern (drop b' (t @ z))" by simp
    have "i < b'"
    proof (cases "search break_pattern t")
      case None
      have "\<not> b' + 7 \<le> length t"
      proof
        assume le: "b' + 7 \<le> length t"
        with m have "match_here break_pattern (drop b' t @ z)" by simp
        from match_here_app_inv[OF this] le have "match_here break_pattern (drop b' t)"
          by (simp add: break_pattern_def)
        with search_None[OF None, of b'] le show False by simp
      qed
      moreover from marker_not_over_lt[OF m, of i] lt
      have "i < b' \<or> b' + 7 \<le> i" by (simp add: nth_append)
      ultimately show ?thesis using lt(1) by linarith
    next
      case (Some b)
      from search_app[OF Some, of z] \<open>search break_pattern (t @ z) = Some b'\<close> have "b' = b" by simp
      with assms ij Some show ?thesis by (simp add: image_first_def)
    qed
    with ij' Some show ?thesis by (simp add: image_first_def)
  qed
qed

lemma tag_close_gt_end: "tag_close (cs @ z) = Some n \<Longrightarrow> \<exists>n'. tag_close (cs @ ''>'') = Some n'"
  by (induction cs arbitrary: n) (auto split: if_splits)

lemma image_search_closed_or_open:
  "image_search (t @ z) = Some (i, j) \<Longrightarrow> i < length t \<Longrightarrow>
     \<exists>i' j'. image_search (t @ ''>'') = Some (i', j') \<and> i' \<le> i"
proof (induction t arbitrary: i j)
  case Nil
  then show ?case by simp
next
  case (Cons c cs)
  show ?case
  proof (cases "(if c = CHR ''<'' then tag_close (cs @ ''>'') else None)")
    case (Some n)
    then show ?thesis by simp
  next
    case None
    have "(if c = CHR ''<'' then tag_close (cs @ z) else None) = None"
    proof (rule ccontr)
      assume "(if c = CHR ''<'' then tag_close (cs @ z) else None) \<noteq> None"
      then obtain n where "c = CHR ''<''" "tag_close (cs @ z) = Some n" by (auto split: if_splits)
      with tag_close_gt_end[of cs z n] None show False by auto
    qed
    with Cons.prems obtain i0 j0 where
      ij: "image_search (cs @ z) = Some (i0, j0)" "i = Suc i0" "j = Suc j0" by auto
    from Cons.prems(2) ij(2) have "i0 < length cs" by simp
    from Cons.IH[OF ij(1) this] obtain i' j' where
      "image_search (cs @ ''>'') = Some (i', j')" "i' \<le> i0" by blast
    with None ij(2) show ?thesis by simp
  qed
qed

lemma break_first_app:
  assumes nf: "\<not> image_first t" and brk: "search break_pattern t = Some b"
    and no: "no_open_tag_before b t"
  shows "\<not> image_first (t @ z)"
proof -
  from search_app[OF brk] have brk': "search break_pattern (t @ z) = Some b" .
  from search_length[OF brk] have bl: "b < length t" by (simp add: break_pattern_def)
  show ?thesis
  proof (cases "image_search (t @ z)")
    case None
    with brk' show ?thesis by (simp add: image_first_def)
  next
    case (Some m)
    obtain i j where m: "m = (i, j)" by (cases m)
    have "b \<le> i"
    proof (cases "i < length t")
      case True
      from image_search_closed_or_open[OF Some[unfolded m] True] obtain i' j' where
        "image_search (t @ ''>'') = Some (i', j')" "i' \<le> i" by blast
      with no show ?thesis by (simp add: no_open_tag_before_def)
    next
      case False
      with bl show ?thesis by simp
    qed
    with Some m brk' show ?thesis by (simp add: image_first_def)
  qed
qed

lemma tidy_Some:
  "process_text_iteration s = Some (out, s') \<Longrightarrow>
     tidy s = ((image_first (sp_text s) \<or> tidy_break (sp_text s)) \<and> tidy s')"
  by (subst tidy.simps) auto

lemma strip_all_space: "list_all isspace r \<Longrightarrow> strip r = []"
proof -
  assume "list_all isspace r"
  then have a: "dropWhile isspace r = []" by (simp only: dropWhile_eq_Nil_conv list_all_iff)
  show ?thesis unfolding strip_def a by simp
qed

lemma strip_app_tidy:
  assumes "remainder_tidy r"
  shows "strip (r @ z) = strip (strip r @ z)"
proof (cases "list_all isspace r")
  case True
  then show ?thesis by (simp add: strip_all_space strip_pad_left)
next
  case False
  with assms have last: "\<not> isspace (last r)" by (simp add: remainder_tidy_def)
  from False have ne: "r \<noteq> []" by auto
  from strip_decomp[of r] obtain l w where
    d: "r = l @ strip r @ w" "\<forall>c\<in>set l. isspace c" "\<forall>c\<in>set w. isspace c" by blast
  have "w = []"
  proof (rule ccontr)
    assume w: "w \<noteq> []"
    with d(1) have "last r = last w" by (metis append_is_Nil_conv last_appendR)
    with d(3) w last show False by (metis last_in_set)
  qed
  with d(1) have e: "r @ z = l @ (strip r @ z)" by simp
  from d(2) have sp: "list_all isspace l" by (simp add: list_all_iff)
  show ?thesis by (subst e) (rule strip_pad_left[OF sp])
qed

text \<open>One iteration on a buffer, and the same iteration when more text has already
  arrived behind it.\<close>

lemma iteration_app:
  assumes it: "process_text_iteration s = Some (out, s')"
    and tb: "image_first (sp_text s) \<or> tidy_break (sp_text s)"
  shows "\<exists>x'. process_text_iteration (s\<lparr>sp_text := sp_text s @ z\<rparr>) = Some (out, x')
            \<and> same_up_to_space x' (s'\<lparr>sp_text := sp_text s' @ z\<rparr>)"
proof (cases "image_first (sp_text s)")
  case True
  let ?t = "sp_text s" and ?Z = "s\<lparr>sp_text := sp_text s @ z\<rparr>"
  from image_first_Some[OF True] obtain i j where ij: "image_search ?t = Some (i, j)" by blast
  from image_search_bounds[OF ij] have b: "i + 2 \<le> j" "j \<le> length ?t" by auto
  from iteration_image[OF True ij] it have
    out: "out = [StoryImageFrame (take (j - 1 - (i + 1)) (drop (i + 1) ?t))]"
    and s': "s' = s\<lparr>sp_text := take i ?t @ drop j ?t\<rparr>" by auto
  have "process_text_iteration ?Z =
     Some ([StoryImageFrame (take (j - 1 - (i + 1)) (drop (i + 1) (?t @ z)))],
           ?Z\<lparr>sp_text := take i (?t @ z) @ drop j (?t @ z)\<rparr>)"
    using iteration_image[of ?Z i j] image_first_app[OF True, of z] image_search_app[OF ij, of z]
    by simp
  moreover have "take (j - 1 - (i + 1)) (drop (i + 1) (?t @ z)) = take (j - 1 - (i + 1)) (drop (i + 1) ?t)"
    using b by simp
  moreover have "take i (?t @ z) @ drop j (?t @ z) = (take i ?t @ drop j ?t) @ z"
    using b by simp
  ultimately have "process_text_iteration ?Z = Some (out, s'\<lparr>sp_text := sp_text s' @ z\<rparr>)"
    using out s' by simp
  then show ?thesis by auto
next
  case False
  let ?t = "sp_text s" and ?Z = "s\<lparr>sp_text := sp_text s @ z\<rparr>"
  have "image_search ?t \<noteq> None \<or> search break_pattern ?t \<noteq> None"
  proof (rule ccontr)
    assume "\<not> (image_search ?t \<noteq> None \<or> search break_pattern ?t \<noteq> None)"
    then have "image_search ?t = None" "search break_pattern ?t = None" by blast+
    then have "process_text_iteration s = None" by (rule iteration_none)
    with it show False by simp
  qed
  with not_image_first_Some[OF False] obtain b where brk: "search break_pattern ?t = Some b"
    by blast
  from split_found[OF brk] obtain q where
    q: "search (ignorecase break_pattern) ?t = Some q" "q + 7 \<le> length ?t" by blast
  from tb False brk q(1) have no: "no_open_tag_before b ?t"
    and rt: "remainder_tidy (drop (q + 7) ?t)" by (simp_all add: tidy_break_def)
  let ?page = "strip (replace_newline (take q ?t))"
  let ?r = "drop (q + 7) ?t"
  from iteration_break[OF False brk q(1)] it have
    r: "(out, s') = (if 2 < length ?page
         then ([StoryPageFrame ?page, DailyTransportMessageFrame CUE_ASSISTANT_TURN],
               s\<lparr>sp_story := sp_story s @ [?page], sp_text := strip ?r\<rparr>)
         else ([], s\<lparr>sp_text := strip ?r\<rparr>))"
    by (simp add: Let_def split: if_splits)
  have Z: "process_text_iteration ?Z =
     (let page = strip (replace_newline (take q (?t @ z)));
          rest = strip (drop (q + 7) (?t @ z))
      in if 2 < length page
         then Some ([StoryPageFrame page, DailyTransportMessageFrame CUE_ASSISTANT_TURN],
                    ?Z\<lparr>sp_story := sp_story ?Z @ [page], sp_text := rest\<rparr>)
         else Some ([], ?Z\<lparr>sp_text := rest\<rparr>))"
    using iteration_break[of ?Z b q] break_first_app[OF False brk no, of z]
      search_app[OF brk, of z] search_app[OF q(1), of z] by simp
  have pg: "take q (?t @ z) = take q ?t" using q(2) by simp
  have rs: "drop (q + 7) (?t @ z) = ?r @ z" using q(2) by simp
  have eq: "strip (strip (?r @ z)) = strip (strip ?r @ z)"
    using strip_app_tidy[OF rt, of z] by (simp add: strip_idem)
  show ?thesis
  proof (cases "2 < length ?page")
    case True
    with r have "out = [StoryPageFrame ?page, DailyTransportMessageFrame CUE_ASSISTANT_TURN]"
      "s' = s\<lparr>sp_story := sp_story s @ [?page], sp_text := strip ?r\<rparr>" by simp_all
    with Z True eq show ?thesis
      unfolding pg rs by (simp add: Let_def same_up_to_space_def)
  next
    case nb: False
    with r have "out = []" "s' = s\<lparr>sp_text := strip ?r\<rparr>" by simp_all
    with Z nb eq show ?thesis
      unfolding pg rs by (simp add: Let_def same_up_to_space_def)
  qed
qed

text \<open>The loop on a buffer with more text behind it, against the loop on the buffer
  alone followed by the loop on what it leaves with that text appended.\<close>

lemma loop_app:
  "tidy s \<Longrightarrow> same_up_to_space x (s\<lparr>sp_text := sp_text s @ z\<rparr>) \<Longrightarrow>
     fst (process_text_content x)
       = fst (process_text_content s)
         @ fst (process_text_content
                  ((snd (process_text_content s))\<lparr>sp_text := sp_text (snd (process_text_content s)) @ z\<rparr>))
   \<and> same_up_to_space (snd (process_text_content x))
        (snd (process_text_content
                  ((snd (process_text_content s))\<lparr>sp_text := sp_text (snd (process_text_content s)) @ z\<rparr>)))"
proof (induction s arbitrary: x rule: process_text_content.induct)
  case (1 s)
  show ?case
  proof (cases "process_text_iteration s")
    case None
    then have "process_text_content s = ([], s)" by (rule process_text_content_None)
    with loop_same_up_to_space[OF "1.prems"(2)] show ?thesis by simp
  next
    case (Some m)
    then obtain out s' where it: "process_text_iteration s = Some (out, s')" by (cases m) simp
    from "1.prems"(1) tidy_Some[OF it] have
      tb: "image_first (sp_text s) \<or> tidy_break (sp_text s)" and ts': "tidy s'" by auto
    from iteration_app[OF it tb, of z] obtain y' where
      y': "process_text_iteration (s\<lparr>sp_text := sp_text s @ z\<rparr>) = Some (out, y')"
          "same_up_to_space y' (s'\<lparr>sp_text := sp_text s' @ z\<rparr>)" by blast
    from iteration_same_up_to_space[OF "1.prems"(2)] y'(1) obtain x' where
      x': "process_text_iteration x = Some (out, x')" "same_up_to_space x' y'"
      by (cases "process_text_iteration x") auto
    from x'(2) y'(2) have rel: "same_up_to_space x' (s'\<lparr>sp_text := sp_text s' @ z\<rparr>)"
      by (rule same_up_to_space_trans)
    from "1.IH"[OF it refl ts' rel] show ?thesis
      by (simp add: process_text_content_Some[OF it] process_text_content_Some[OF x'(1)])
  qed
qed

section \<open>Properties\<close>






text \<open>The text of a removed tag can come back in a later page, because a page is
  built after newlines have become spaces.\<close>

lemma removed_tag_text_in_later_page:
  "fst (process_frame (new_processor [] []) (TextFrame ''<a b><a\<newline>b>[break]''))
     = [StoryImageFrame ''a b'', StoryPageFrame ''<a b>'',
        DailyTransportMessageFrame CUE_ASSISTANT_TURN]"
  by code_simp

text \<open>
  C3, as the code has it. On an end-of-response marker the processor pushes a prompt-replay
  frame carrying the whole buffer, whether or not the buffer is empty, then the end
  marker itself, the UI cue for the user's turn and the listening sound, in this order,
  and the buffer is empty afterwards.
\<close>

theorem end_of_response_flush:
  "process_frame s LLMFullResponseEndFrame =
     ([StoryPromptFrame (sp_text s), LLMFullResponseEndFrame,
       DailyTransportMessageFrame CUE_USER_TURN, sounds listening],
      s\<lparr>sp_text := []\<rparr>)"
  by simp

text \<open>With an empty buffer the prompt-replay frame is still pushed, with an empty
  payload: there is no test of the buffer in this arm.\<close>

theorem end_of_response_empty_buffer_counterexample:
  "sp_text (new_processor [] []) = [] \<and>
   fst (process_frame (new_processor [] []) LLMFullResponseEndFrame) =
     [StoryPromptFrame [], LLMFullResponseEndFrame,
      DailyTransportMessageFrame CUE_USER_TURN, sounds listening]"
  by (simp add: new_processor_def)

text \<open>
  C4 at a concrete input. The search that decides whether there is a break marker uses
  \<^verbatim>\<open>\[[bB]reak\]\<close> without \<^verbatim>\<open>re.IGNORECASE\<close>; only the split that follows has the flag.
  So \<^verbatim>\<open>[BREAK]\<close> alone is not detected and stays in the buffer, while the same text with
  \<^verbatim>\<open>[break]\<close> gives a page; once a later \<^verbatim>\<open>[break]\<close> lets the loop enter the break arm,
  the split does take \<^verbatim>\<open>[BREAK]\<close> as a boundary.
\<close>

theorem uppercase_break_not_detected:
  "process_frame (new_processor [] []) (TextFrame ''hello world[BREAK]'')
     = ([], \<lparr>sp_messages = [], sp_text = ''hello world[BREAK]'', sp_story = []\<rparr>)
   \<and> process_frame (new_processor [] []) (TextFrame ''hello world[break]'')
     = ([StoryPageFrame ''hello world'', DailyTransportMessageFrame CUE_ASSISTANT_TURN],
        \<lparr>sp_messages = [], sp_text = [], sp_story = [''hello world'']\<rparr>)
   \<and> process_frame (new_processor [] []) (TextFrame ''hello[BREAK]world[break]'')
     = ([StoryPageFrame ''hello'', DailyTransportMessageFrame CUE_ASSISTANT_TURN,
         StoryPageFrame ''world'', DailyTransportMessageFrame CUE_ASSISTANT_TURN],
        \<lparr>sp_messages = [], sp_text = [], sp_story = [''hello'', ''world'']\<rparr>)"
  by code_simp

text \<open>
  C5, as the code has it. The loop runs on every delta, on what has arrived so far. If
  the sequence of deltas is tidy (while each delta but the last is processed, every
  break marker consumed has no open \<^verbatim>\<open><\<close> before it and is followed in the buffer by
  whitespace only or by text that does not end in whitespace), feeding the deltas one
  at a time pushes the same frames as feeding their concatenation in a single delta,
  and leaves the same story and the same buffer up to whitespace at its ends.
\<close>

theorem fragmentation_tidy:
  assumes "ds \<noteq> []" and "tidy_deltas s ds"
  shows "fst (process_frames s (map TextFrame ds)) = fst (process_frames s [TextFrame (concat ds)])
       \<and> same_up_to_space (snd (process_frames s (map TextFrame ds)))
            (snd (process_frames s [TextFrame (concat ds)]))"
  using assms
proof (induction s ds rule: tidy_deltas.induct)
  case (1 s)
  then show ?case by simp
next
  case (2 s d)
  then show ?case by simp
next
  case (3 s d d' ds)
  let ?s0 = "s\<lparr>sp_text := sp_text s @ d\<rparr>"
  let ?s1 = "snd (process_text_content ?s0)"
  let ?z = "concat (d' # ds)"
  from "3.prems"(2) have t0: "tidy ?s0" and td: "tidy_deltas ?s1 (d' # ds)" by simp_all
  from "3.IH"[OF _ ] td have ih:
    "fst (process_frames ?s1 (map TextFrame (d' # ds))) = fst (process_frames ?s1 [TextFrame ?z])"
    "same_up_to_space (snd (process_frames ?s1 (map TextFrame (d' # ds))))
            (snd (process_frames ?s1 [TextFrame ?z]))" by simp_all
  have whole: "process_frames s [TextFrame (concat (d # d' # ds))]
                 = process_text_content (?s0\<lparr>sp_text := sp_text ?s0 @ ?z\<rparr>)"
    by (simp add: case_prod_beta)
  have next1: "process_frames ?s1 [TextFrame ?z]
                 = process_text_content (?s1\<lparr>sp_text := sp_text ?s1 @ ?z\<rparr>)"
    by (simp add: case_prod_beta)
  from loop_app[OF t0 same_up_to_space_refl, of ?z] have la:
    "fst (process_text_content (?s0\<lparr>sp_text := sp_text ?s0 @ ?z\<rparr>))
       = fst (process_text_content ?s0) @ fst (process_text_content (?s1\<lparr>sp_text := sp_text ?s1 @ ?z\<rparr>))"
    "same_up_to_space (snd (process_text_content (?s0\<lparr>sp_text := sp_text ?s0 @ ?z\<rparr>)))
        (snd (process_text_content (?s1\<lparr>sp_text := sp_text ?s1 @ ?z\<rparr>)))" by simp_all
  have frag: "process_frames s (map TextFrame (d # d' # ds))
     = (fst (process_text_content ?s0) @ fst (process_frames ?s1 (map TextFrame (d' # ds))),
        snd (process_frames ?s1 (map TextFrame (d' # ds))))"
    by (simp add: case_prod_beta)
  from ih(1) la(1) have "fst (process_frames s (map TextFrame (d # d' # ds)))
      = fst (process_frames s [TextFrame (concat (d # d' # ds))])"
    unfolding frag whole next1 by simp
  moreover from ih(2) la(2) have "same_up_to_space (snd (process_frames s (map TextFrame (d # d' # ds))))
            (snd (process_frames s [TextFrame (concat (d # d' # ds))]))"
    unfolding frag whole next1
    by (auto intro: same_up_to_space_trans same_up_to_space_sym)
  ultimately show ?case by simp
qed

theorem fragmentation_tidy_witness:
  "tidy_deltas (new_processor [] [])
     [''Once upon a time[bre'', ''ak] there was <a cat'', ''> a cat.[break]'', '' The e'', ''nd[break]'']
   \<and> fst (process_frames (new_processor [] []) (map TextFrame
     [''Once upon a time[bre'', ''ak] there was <a cat'', ''> a cat.[break]'', '' The e'', ''nd[break]'']))
     = [StoryPageFrame ''Once upon a time'', DailyTransportMessageFrame CUE_ASSISTANT_TURN,
        StoryImageFrame ''a cat'',
        StoryPageFrame ''there was  a cat.'', DailyTransportMessageFrame CUE_ASSISTANT_TURN,
        StoryPageFrame ''The end'', DailyTransportMessageFrame CUE_ASSISTANT_TURN]"
proof -
  let ?s = "new_processor [] []"
  let ?ds = "[''Once upon a time[bre'', ''ak] there was <a cat'', ''> a cat.[break]'', '' The e'', ''nd[break]'']"
  have ne: "?ds \<noteq> []" by simp
  have td: "tidy_deltas ?s ?ds" by code_simp
  have whole: "fst (process_frames ?s [TextFrame (concat ?ds)])
     = [StoryPageFrame ''Once upon a time'', DailyTransportMessageFrame CUE_ASSISTANT_TURN,
        StoryImageFrame ''a cat'',
        StoryPageFrame ''there was  a cat.'', DailyTransportMessageFrame CUE_ASSISTANT_TURN,
        StoryPageFrame ''The end'', DailyTransportMessageFrame CUE_ASSISTANT_TURN]"
    by code_simp
  from fragmentation_tidy[OF ne td] whole td show ?thesis by simp
qed

text \<open>Once a delta has completed a break marker the trimmed remainder is what the next
  delta is appended to: a trailing space at the end of a delta is lost, and the pages
  differ from those of the whole string.\<close>

theorem fragmentation_counterexample:
  "concat [''one[break]two '', ''three[break]''] = ''one[break]two three[break]''
   \<and> fst (process_frames (new_processor [] []) (map TextFrame [''one[break]two '', ''three[break]'']))
       = [StoryPageFrame ''one'', DailyTransportMessageFrame CUE_ASSISTANT_TURN,
          StoryPageFrame ''twothree'', DailyTransportMessageFrame CUE_ASSISTANT_TURN]
   \<and> fst (process_frames (new_processor [] []) [TextFrame ''one[break]two three[break]''])
       = [StoryPageFrame ''one'', DailyTransportMessageFrame CUE_ASSISTANT_TURN,
          StoryPageFrame ''two three'', DailyTransportMessageFrame CUE_ASSISTANT_TURN]"
  by code_simp

text \<open>An open \<^verbatim>\<open><\<close> before a consumed marker has the same effect: cut after the marker,
  the marker is consumed; in the whole string it is inside the tag.\<close>

lemma open_tag_cut_example:
  "fst (process_frames (new_processor [] []) (map TextFrame [''<a[break]'', ''b>''])) = []
   \<and> fst (process_frames (new_processor [] []) [TextFrame ''<a[break]b>''])
       = [StoryImageFrame ''a[break]b'']"
  by code_simp

text \<open>
  C7. The extraction loop terminates: an iteration that consumes an image tag or a break
  marker leaves a strictly shorter buffer, the loop ends in a state in which neither
  pattern is found, and the buffer it leaves is no longer than the one it started from.
  (\<open>process_text_content\<close> is a total function by the termination proof above.)
\<close>

theorem extraction_loop_terminates:
  "(process_text_iteration s = Some (out, s') \<longrightarrow> length (sp_text s') < length (sp_text s))
   \<and> process_text_iteration (snd (process_text_content s)) = None
   \<and> length (sp_text (snd (process_text_content s))) \<le> length (sp_text s)"
  using iteration_decreases[of s out s'] loop_exit[of s] loop_buffer_le[of s] by blast

theorem extraction_loop_terminates_witness:
  "process_text_iteration \<lparr>sp_messages = [], sp_text = ''a<x>b[break]c'', sp_story = []\<rparr>
     = Some ([StoryImageFrame ''x''], \<lparr>sp_messages = [], sp_text = ''ab[break]c'', sp_story = []\<rparr>)
   \<and> length ''ab[break]c'' < length ''a<x>b[break]c''"
proof -
  have h: "process_text_iteration \<lparr>sp_messages = [], sp_text = ''a<x>b[break]c'', sp_story = []\<rparr>
     = Some ([StoryImageFrame ''x''], \<lparr>sp_messages = [], sp_text = ''ab[break]c'', sp_story = []\<rparr>)"
    by code_simp
  from extraction_loop_terminates[THEN conjunct1, rule_format, OF h] h show ?thesis by simp
qed

text \<open>
  C8, as the code has it. An iteration that consumes an image tag removes exactly the
  span of the first tag the search matches (its text has neither \<^verbatim>\<open>>\<close> nor a newline,
  and no \<^verbatim>\<open><\<close> before it is closed) and leaves the text before and after it joined. An
  iteration that consumes a break marker removes the text up to and including the
  first marker in any casing and, beyond that span, the whitespace at both ends of what
  follows, and nothing else of it; the text before the marker is the page. In both
  cases the frames pushed and the whole new state are as stated. A text frame appends
  its payload before the loop runs; an end-of-response marker empties the buffer; no
  other frame changes it.
\<close>

theorem buffer_changes:
  "(process_text_iteration s = Some (out, s') \<longrightarrow>
      (\<exists>pre p post.
          sp_text s = pre @ CHR ''<'' # p @ CHR ''>'' # post
          \<and> CHR ''>'' \<notin> set p \<and> CHR 0x0A \<notin> set p
          \<and> image_search (sp_text s) = Some (length pre, length pre + length p + 2)
          \<and> (\<forall>k<length pre. sp_text s ! k = CHR ''<'' \<longrightarrow>
                tag_close (drop (Suc k) (sp_text s)) = None)
          \<and> out = [StoryImageFrame p]
          \<and> s' = s\<lparr>sp_text := pre @ post\<rparr>)
    \<or> (\<exists>pre marker rest l r.
          sp_text s = pre @ marker @ rest
          \<and> length marker = 7 \<and> match_here (ignorecase break_pattern) marker
          \<and> (\<forall>k<length pre. \<not> match_here (ignorecase break_pattern) (drop k (sp_text s)))
          \<and> out = (if 2 < length (strip (replace_newline pre))
                    then [StoryPageFrame (strip (replace_newline pre)),
                          DailyTransportMessageFrame CUE_ASSISTANT_TURN]
                    else [])
          \<and> s' = s\<lparr>sp_story := (if 2 < length (strip (replace_newline pre))
                                  then sp_story s @ [strip (replace_newline pre)]
                                  else sp_story s),
                    sp_text := strip rest\<rparr>
          \<and> rest = l @ strip rest @ r \<and> list_all isspace l \<and> list_all isspace r))
   \<and> (text_of f = Some d \<longrightarrow>
        process_frame s f = process_text_content (s\<lparr>sp_text := sp_text s @ d\<rparr>))
   \<and> (text_of f = None \<longrightarrow>
        process_frame s f =
          (if f = UserStoppedSpeakingFrame
           then ([DailyTransportMessageFrame CUE_ASSISTANT_TURN, sounds talking], s)
           else if f = LLMFullResponseEndFrame
           then ([StoryPromptFrame (sp_text s), f,
                  DailyTransportMessageFrame CUE_USER_TURN, sounds listening],
                 s\<lparr>sp_text := []\<rparr>)
           else ([f], s))
        \<and> sp_text (snd (process_frame s f))
            = (if f = LLMFullResponseEndFrame then [] else sp_text s))"
proof (intro conjI impI)
  let ?t = "sp_text s"
  let ?ic = "ignorecase break_pattern"
  assume it: "process_text_iteration s = Some (out, s')"
  from iteration_cases[OF it] show
    "(\<exists>pre p post.
          sp_text s = pre @ CHR ''<'' # p @ CHR ''>'' # post
          \<and> CHR ''>'' \<notin> set p \<and> CHR 0x0A \<notin> set p
          \<and> image_search (sp_text s) = Some (length pre, length pre + length p + 2)
          \<and> (\<forall>k<length pre. sp_text s ! k = CHR ''<'' \<longrightarrow>
                tag_close (drop (Suc k) (sp_text s)) = None)
          \<and> out = [StoryImageFrame p]
          \<and> s' = s\<lparr>sp_text := pre @ post\<rparr>)
    \<or> (\<exists>pre marker rest l r.
          sp_text s = pre @ marker @ rest
          \<and> length marker = 7 \<and> match_here ?ic marker
          \<and> (\<forall>k<length pre. \<not> match_here ?ic (drop k (sp_text s)))
          \<and> out = (if 2 < length (strip (replace_newline pre))
                    then [StoryPageFrame (strip (replace_newline pre)),
                          DailyTransportMessageFrame CUE_ASSISTANT_TURN]
                    else [])
          \<and> s' = s\<lparr>sp_story := (if 2 < length (strip (replace_newline pre))
                                  then sp_story s @ [strip (replace_newline pre)]
                                  else sp_story s),
                    sp_text := strip rest\<rparr>
          \<and> rest = l @ strip rest @ r \<and> list_all isspace l \<and> list_all isspace r)"
  proof (elim disjE exE conjE)
    fix i j
    assume im: "image_search ?t = Some (i, j)"
      and out: "out = [StoryImageFrame (take (j - 1 - (i + 1)) (drop (i + 1) ?t))]"
      and s': "s' = s\<lparr>sp_text := take i ?t @ drop j ?t\<rparr>"
    let ?pre = "take i ?t" and ?p = "take (j - 1 - (i + 1)) (drop (i + 1) ?t)" and ?post = "drop j ?t"
    from image_search_bounds[OF im] have b: "i + 2 \<le> j" "j \<le> length ?t" by auto
    have 1: "?t = ?pre @ CHR ''<'' # ?p @ CHR ''>'' # ?post" by (rule image_search_decomp[OF im])
    from image_search_clean[OF im] have 2: "CHR ''>'' \<notin> set ?p" "CHR 0x0A \<notin> set ?p" by auto
    have len: "length ?pre = i" "length ?p = j - i - 2" using b by auto
    have 3: "image_search ?t = Some (length ?pre, length ?pre + length ?p + 2)"
      unfolding len using im b by simp
    have 4: "\<forall>k<length ?pre. ?t ! k = CHR ''<'' \<longrightarrow> tag_close (drop (Suc k) ?t) = None"
      unfolding len using image_search_first[OF im] by blast
    from 1 2 3 4 out s' have
      "?t = ?pre @ CHR ''<'' # ?p @ CHR ''>'' # ?post
          \<and> CHR ''>'' \<notin> set ?p \<and> CHR 0x0A \<notin> set ?p
          \<and> image_search ?t = Some (length ?pre, length ?pre + length ?p + 2)
          \<and> (\<forall>k<length ?pre. ?t ! k = CHR ''<'' \<longrightarrow> tag_close (drop (Suc k) ?t) = None)
          \<and> out = [StoryImageFrame ?p]
          \<and> s' = s\<lparr>sp_text := ?pre @ ?post\<rparr>" by blast
    then show ?thesis by blast
  next
    fix q
    assume q: "search ?ic ?t = Some q" "q + 7 \<le> length ?t"
      and r: "(out, s') =
                (let page = strip (replace_newline (take q ?t));
                     rest = strip (drop (q + 7) ?t)
                 in if 2 < length page
                    then ([StoryPageFrame page, DailyTransportMessageFrame CUE_ASSISTANT_TURN],
                          s\<lparr>sp_story := sp_story s @ [page], sp_text := rest\<rparr>)
                    else ([], s\<lparr>sp_text := rest\<rparr>))"
    let ?pre = "take q ?t" and ?m = "take 7 (drop q ?t)" and ?rest = "drop (q + 7) ?t"
    let ?page = "strip (replace_newline ?pre)"
    from r have o: "out = (if 2 < length ?page
                    then [StoryPageFrame ?page, DailyTransportMessageFrame CUE_ASSISTANT_TURN]
                    else [])"
      by (auto simp: Let_def split: if_splits)
    from r have s': "s' = s\<lparr>sp_story := (if 2 < length ?page then sp_story s @ [?page] else sp_story s),
                    sp_text := strip ?rest\<rparr>"
      by (auto simp: Let_def split: if_splits)
    from search_Some[OF q(1)] have m: "match_here ?ic (drop q ?t)"
      and least: "\<forall>k<q. \<not> match_here ?ic (drop k ?t)" by auto
    have 1: "?t = ?pre @ ?m @ ?rest"
      by (metis add.commute append_take_drop_id drop_drop)
    have 2: "length ?m = 7" using q(2) by simp
    have 3: "match_here ?ic ?m"
      using match_here_take[OF m] by simp
    have 4: "\<forall>k<length ?pre. \<not> match_here ?ic (drop k ?t)" using least by simp
    from strip_decomp[of ?rest] obtain l r where
      lr: "?rest = l @ strip ?rest @ r" "\<forall>c\<in>set l. isspace c" "\<forall>c\<in>set r. isspace c" by blast
    from lr(2,3) have 5: "list_all isspace l" "list_all isspace r" by (simp_all add: list_all_iff)
    from 1 2 3 4 o s' lr(1) 5 have
      "?t = ?pre @ ?m @ ?rest
          \<and> length ?m = 7 \<and> match_here ?ic ?m
          \<and> (\<forall>k<length ?pre. \<not> match_here ?ic (drop k ?t))
          \<and> out = (if 2 < length ?page
                    then [StoryPageFrame ?page, DailyTransportMessageFrame CUE_ASSISTANT_TURN]
                    else [])
          \<and> s' = s\<lparr>sp_story := (if 2 < length ?page then sp_story s @ [?page] else sp_story s),
                    sp_text := strip ?rest\<rparr>
          \<and> ?rest = l @ strip ?rest @ r \<and> list_all isspace l \<and> list_all isspace r" by blast
    then show ?thesis by blast
  qed
next
  assume "text_of f = Some d"
  then show "process_frame s f = process_text_content (s\<lparr>sp_text := sp_text s @ d\<rparr>)"
    by (cases f) simp_all
next
  assume "text_of f = None"
  then show "process_frame s f =
          (if f = UserStoppedSpeakingFrame
           then ([DailyTransportMessageFrame CUE_ASSISTANT_TURN, sounds talking], s)
           else if f = LLMFullResponseEndFrame
           then ([StoryPromptFrame (sp_text s), f,
                  DailyTransportMessageFrame CUE_USER_TURN, sounds listening],
                 s\<lparr>sp_text := []\<rparr>)
           else ([f], s))"
    by (cases f) simp_all
next
  assume "text_of f = None"
  then show "sp_text (snd (process_frame s f)) = (if f = LLMFullResponseEndFrame then [] else sp_text s)"
    by (cases f) simp_all
qed

theorem buffer_changes_witness:
  "process_text_iteration \<lparr>sp_messages = [], sp_text = ''one[break] two [break]x '', sp_story = []\<rparr>
     = Some ([StoryPageFrame ''one'', DailyTransportMessageFrame CUE_ASSISTANT_TURN],
             \<lparr>sp_messages = [], sp_text = ''two [break]x'', sp_story = [''one'']\<rparr>)
   \<and> (\<exists>pre marker rest l r.
          ''one[break] two [break]x '' = pre @ marker @ rest
          \<and> length marker = 7 \<and> match_here (ignorecase break_pattern) marker
          \<and> (\<forall>k<length pre. \<not> match_here (ignorecase break_pattern) (drop k ''one[break] two [break]x ''))
          \<and> [StoryPageFrame ''one'', DailyTransportMessageFrame CUE_ASSISTANT_TURN]
              = (if 2 < length (strip (replace_newline pre))
                 then [StoryPageFrame (strip (replace_newline pre)),
                       DailyTransportMessageFrame CUE_ASSISTANT_TURN]
                 else [])
          \<and> ''two [break]x'' = strip rest
          \<and> rest = l @ strip rest @ r \<and> list_all isspace l \<and> list_all isspace r)
   \<and> text_of LLMFullResponseEndFrame = None
   \<and> sp_text (snd (process_frame
         \<lparr>sp_messages = [], sp_text = ''one[break] two [break]x '', sp_story = []\<rparr>
         LLMFullResponseEndFrame)) = []"
proof -
  let ?t = "''one[break] two [break]x ''"
  let ?s = "\<lparr>sp_messages = [], sp_text = ?t, sp_story = []\<rparr>"
  let ?s' = "\<lparr>sp_messages = [], sp_text = ''two [break]x'', sp_story = [''one'']\<rparr>"
  let ?out = "[StoryPageFrame ''one'', DailyTransportMessageFrame CUE_ASSISTANT_TURN]"
  let ?ic = "ignorecase break_pattern"
  have it: "process_text_iteration ?s = Some (?out, ?s')" by code_simp
  have tn: "text_of LLMFullResponseEndFrame = None" by simp
  note inst = buffer_changes[of ?s ?out ?s' LLMFullResponseEndFrame]
  from inst it have d:
    "(\<exists>pre p post.
          sp_text ?s = pre @ CHR ''<'' # p @ CHR ''>'' # post
          \<and> CHR ''>'' \<notin> set p \<and> CHR 0x0A \<notin> set p
          \<and> image_search (sp_text ?s) = Some (length pre, length pre + length p + 2)
          \<and> (\<forall>k<length pre. sp_text ?s ! k = CHR ''<'' \<longrightarrow>
                tag_close (drop (Suc k) (sp_text ?s)) = None)
          \<and> ?out = [StoryImageFrame p]
          \<and> ?s' = ?s\<lparr>sp_text := pre @ post\<rparr>)
    \<or> (\<exists>pre marker rest l r.
          sp_text ?s = pre @ marker @ rest
          \<and> length marker = 7 \<and> match_here ?ic marker
          \<and> (\<forall>k<length pre. \<not> match_here ?ic (drop k (sp_text ?s)))
          \<and> ?out = (if 2 < length (strip (replace_newline pre))
                    then [StoryPageFrame (strip (replace_newline pre)),
                          DailyTransportMessageFrame CUE_ASSISTANT_TURN]
                    else [])
          \<and> ?s' = ?s\<lparr>sp_story := (if 2 < length (strip (replace_newline pre))
                                  then sp_story ?s @ [strip (replace_newline pre)]
                                  else sp_story ?s),
                    sp_text := strip rest\<rparr>
          \<and> rest = l @ strip rest @ r \<and> list_all isspace l \<and> list_all isspace r)"
    by blast
  have "\<not> (\<exists>pre p post.
          sp_text ?s = pre @ CHR ''<'' # p @ CHR ''>'' # post
          \<and> CHR ''>'' \<notin> set p \<and> CHR 0x0A \<notin> set p
          \<and> image_search (sp_text ?s) = Some (length pre, length pre + length p + 2)
          \<and> (\<forall>k<length pre. sp_text ?s ! k = CHR ''<'' \<longrightarrow>
                tag_close (drop (Suc k) (sp_text ?s)) = None)
          \<and> ?out = [StoryImageFrame p]
          \<and> ?s' = ?s\<lparr>sp_text := pre @ post\<rparr>)"
    by simp
  with d obtain pre marker rest l r where
    w: "sp_text ?s = pre @ marker @ rest" "length marker = 7" "match_here ?ic marker"
       "\<forall>k<length pre. \<not> match_here ?ic (drop k (sp_text ?s))"
       "?out = (if 2 < length (strip (replace_newline pre))
                    then [StoryPageFrame (strip (replace_newline pre)),
                          DailyTransportMessageFrame CUE_ASSISTANT_TURN]
                    else [])"
       "?s' = ?s\<lparr>sp_story := (if 2 < length (strip (replace_newline pre))
                                  then sp_story ?s @ [strip (replace_newline pre)]
                                  else sp_story ?s),
                    sp_text := strip rest\<rparr>"
       "rest = l @ strip rest @ r" "list_all isspace l" "list_all isspace r"
    by blast
  from w(1) have w1: "?t = pre @ marker @ rest" by simp
  from w(4) have w4: "\<forall>k<length pre. \<not> match_here ?ic (drop k ?t)" by simp
  from w(6) have w6: "''two [break]x'' = strip rest" by simp
  from w1 w(2,3) w4 w(5) w6 w(7,8,9) have a: "\<exists>pre marker rest l r.
          ?t = pre @ marker @ rest
          \<and> length marker = 7 \<and> match_here ?ic marker
          \<and> (\<forall>k<length pre. \<not> match_here ?ic (drop k ?t))
          \<and> ?out = (if 2 < length (strip (replace_newline pre))
                 then [StoryPageFrame (strip (replace_newline pre)),
                       DailyTransportMessageFrame CUE_ASSISTANT_TURN]
                 else [])
          \<and> ''two [break]x'' = strip rest
          \<and> rest = l @ strip rest @ r \<and> list_all isspace l \<and> list_all isspace r"
    by blast
  from inst tn have b: "sp_text (snd (process_frame ?s LLMFullResponseEndFrame)) = []" by simp
  from it a tn b show ?thesis by blast
qed

text \<open>The break arm drops characters outside the consumed span: here the space
  at the end of the buffer.\<close>

theorem break_strips_remainder_counterexample:
  "process_text_iteration \<lparr>sp_messages = [], sp_text = ''one[break] two '', sp_story = []\<rparr>
     = Some ([StoryPageFrame ''one'', DailyTransportMessageFrame CUE_ASSISTANT_TURN],
             \<lparr>sp_messages = [], sp_text = ''two'', sp_story = [''one'']\<rparr>)
   \<and> ''two'' \<noteq> drop (length ''one[break]'') ''one[break] two ''"
  by code_simp

text \<open>
  C9. A page frame, an image-trigger frame or a prompt-replay frame arriving as input is
  a \<^verbatim>\<open>TextFrame\<close> for \<^verbatim>\<open>isinstance\<close>: its payload is appended to the buffer and the
  extraction loop runs, exactly as for a plain text delta with the same payload. The
  pass-through arm is not reached, and the result is never the one that arm would give
  (the frame alone pushed, the state unchanged).
\<close>

theorem text_subtypes_consumed:
  assumes "f \<in> {StoryPageFrame t, StoryImageFrame t, StoryPromptFrame t}"
  shows "process_frame s f = process_text_content (s\<lparr>sp_text := sp_text s @ t\<rparr>)
       \<and> process_frame s f = process_frame s (TextFrame t)
       \<and> process_frame s f \<noteq> ([f], s)"
proof -
  let ?s0 = "s\<lparr>sp_text := sp_text s @ t\<rparr>"
  from assms have eq: "process_frame s f = process_text_content ?s0" by auto
  have ne: "process_text_content ?s0 \<noteq> ([f], s)"
  proof
    assume a: "process_text_content ?s0 = ([f], s)"
    from assms consider "f = StoryPageFrame t" | "f = StoryImageFrame t" | "f = StoryPromptFrame t"
      by auto
    then show False
    proof cases
      case 1
      with a loop_no_single_page[of ?s0 t] show False by simp
    next
      case 2
      with a have "StoryImageFrame t \<in> set (fst (process_text_content ?s0))" by simp
      from loop_image_shrinks[OF this] a show False by simp
    next
      case 3
      with a loop_no_prompt[of t ?s0] show False by simp
    qed
  qed
  from eq ne show ?thesis by simp
qed

theorem text_subtypes_consumed_witness:
  "StoryPageFrame ''Once'' \<in> {StoryPageFrame ''Once'', StoryImageFrame ''Once'', StoryPromptFrame ''Once''}
   \<and> process_frame (new_processor [] []) (StoryPageFrame ''Once'')
       = ([], \<lparr>sp_messages = [], sp_text = ''Once'', sp_story = []\<rparr>)
   \<and> process_frame (new_processor [] []) (StoryPageFrame ''Once'')
       \<noteq> ([StoryPageFrame ''Once''], new_processor [] [])"
proof -
  have h: "StoryPageFrame ''Once'' \<in> {StoryPageFrame ''Once'', StoryImageFrame ''Once'', StoryPromptFrame ''Once''}"
    by simp
  have "process_frame (new_processor [] []) (TextFrame ''Once'')
       = ([], \<lparr>sp_messages = [], sp_text = ''Once'', sp_story = []\<rparr>)"
    by code_simp
  with text_subtypes_consumed[OF h, of "new_processor [] []"] h show ?thesis by simp
qed

text \<open>
  C10. Over any run of frames, the story grows exactly by the texts of the page frames
  pushed, in order, and each of them has no newline, is longer than 2 characters and
  has no whitespace at either end.
\<close>

theorem story_invariant:
  "sp_story (snd (process_frames s fs)) = sp_story s @ page_texts (fst (process_frames s fs))
   \<and> list_all well_formed_page (page_texts (fst (process_frames s fs)))"
proof (induction fs arbitrary: s)
  case Nil
  then show ?case by simp
next
  case (Cons f fs)
  from frame_story[of s f] Cons.IH[of "snd (process_frame s f)"]
  show ?case by (simp add: case_prod_beta page_texts_append)
qed

theorem story_invariant_witness:
  "sp_story (snd (process_frames (new_processor [] [''Long ago''])
       [TextFrame ''A fox\<newline>ran. [bre'', UserStoppedSpeakingFrame, TextFrame ''ak] ok [break]'',
        LLMFullResponseEndFrame]))
     = [''Long ago'', ''A fox ran.'']
   \<and> well_formed_page ''A fox ran.''"
proof -
  let ?s = "new_processor [] [''Long ago'']"
  let ?fs = "[TextFrame ''A fox\<newline>ran. [bre'', UserStoppedSpeakingFrame, TextFrame ''ak] ok [break]'',
        LLMFullResponseEndFrame]"
  have ev: "fst (process_frames ?s ?fs) =
      [DailyTransportMessageFrame CUE_ASSISTANT_TURN, sounds talking,
       StoryPageFrame ''A fox ran.'', DailyTransportMessageFrame CUE_ASSISTANT_TURN,
       StoryPromptFrame [], LLMFullResponseEndFrame,
       DailyTransportMessageFrame CUE_USER_TURN, sounds listening]"
    by code_simp
  have st: "sp_story ?s = [''Long ago'']" by (simp add: new_processor_def)
  from story_invariant[of ?s ?fs] show ?thesis unfolding ev st by simp
qed

end
